theory Spec2Isabelle
  imports Complex_Main "HOL-Library.Monad_Syntax"
begin

section \<open>JavaScript numbers\<close>

text \<open>
  A JavaScript number is an IEEE 754 binary64 value. A finite one is modelled by the rational
  it stands for, and every arithmetic operation rounds its exact result to the nearest
  binary64 value, ties to the even significand (\<open>fl\<close>): 53 significant bits, exponents down
  to the subnormal step \<open>2 powi (- 1074)\<close>. \<open>-0\<close> is not told apart from \<open>0\<close> (the code
  compares and adds, which do not tell them apart either); \<open>NaN\<close> is \<open>None\<close> where a value
  may be one; overflow to \<open>Infinity\<close> (beyond \<open>2 ^ 1024\<close>) is outside the model.
\<close>

type_synonym double = rat

function bit_length :: "int \<Rightarrow> int" where
  "bit_length n = (if n \<le> 0 then 0 else 1 + bit_length (n div 2))"
  by pat_completeness auto
termination
  by (relation "measure nat") auto

declare bit_length.simps [simp del]

text \<open>The integer \<open>k\<close> with \<open>2 powi k \<le> x < 2 powi (k + 1)\<close>, for \<open>x > 0\<close>.\<close>

definition binary_exponent :: "rat \<Rightarrow> int" where
  "binary_exponent x =
     (if 1 \<le> x then bit_length \<lfloor>x\<rfloor> - 1
      else - bit_length (\<lceil>1 / x\<rceil> - 1))"

definition round_half_even :: "rat \<Rightarrow> int" where
  "round_half_even x =
     (let f = \<lfloor>x\<rfloor>; d = x - of_int f
      in if d < 1 / 2 then f else if 1 / 2 < d then f + 1 else if even f then f else f + 1)"

definition fl :: "rat \<Rightarrow> double" where
  "fl x =
     (if x = 0 then 0
      else (let a = \<bar>x\<bar>;
                e = max (binary_exponent a - 52) (- 1074);
                m = round_half_even (a / 2 powi e)
            in (if x < 0 then - 1 else 1) * of_int m * 2 powi e))"

definition dadd :: "double \<Rightarrow> double \<Rightarrow> double" where
  "dadd a b = fl (a + b)"

definition dsub :: "double \<Rightarrow> double \<Rightarrow> double" where
  "dsub a b = fl (a - b)"

definition ddiv :: "double \<Rightarrow> double \<Rightarrow> double" where
  "ddiv a b = fl (a / b)"

text \<open>\<open>xs.reduce((sum, h) => sum + h, 0)\<close>: the sum as the code adds it, from the left.\<close>

definition js_sum :: "double list \<Rightarrow> double" where
  "js_sum xs = foldl (\<lambda>sum h. dadd sum h) 0 xs"

section \<open>Data model\<close>

text \<open>
  A \<open>WorkItem\<close> of \<open>types.ts\<close> is an object with a numeric \<open>id\<close> and a bag \<open>fields\<close>.
  The record keeps the fields that the planner, the hierarchy resolver and the metrics
  read. Ids are integers; hours are JavaScript numbers; a numeric field that is absent,
  \<open>undefined\<close> or \<open>NaN\<close> is \<open>None\<close>.
\<close>

record WorkItem =
  wi_id :: int
  System_WorkItemType :: string
  System_Title :: string
  System_Parent :: "int option"
  Custom_Hspendientes :: "double option"
  Custom_Cargasemanal :: "double option"
  Custom_Horas :: "double option"

text \<open>\<open>(x as number) || 0\<close>: every falsy value (absent, \<open>NaN\<close>, \<open>0\<close>) becomes \<open>0\<close>.\<close>

definition or_zero :: "double option \<Rightarrow> double" where
  "or_zero x = (case x of None \<Rightarrow> 0 | Some n \<Rightarrow> n)"

text \<open>
  A JavaScript \<open>Map\<close> keeps its entries in insertion order: an association list with
  distinct keys. \<open>set\<close> on a present key replaces the value where it stands, on a new key
  it appends the entry.
\<close>

type_synonym ('k, 'v) jsmap = "('k \<times> 'v) list"

definition map_get :: "('k, 'v) jsmap \<Rightarrow> 'k \<Rightarrow> 'v option" where
  "map_get m k = map_of m k"

fun map_set :: "('k, 'v) jsmap \<Rightarrow> 'k \<Rightarrow> 'v \<Rightarrow> ('k, 'v) jsmap" where
  "map_set [] k v = [(k, v)]"
| "map_set ((k', v') # m) k v = (if k' = k then (k, v) # m else (k', v') # map_set m k v)"

text \<open>\<open>type Plan = Map<number, number[]>\<close>: project id to hours per week.\<close>

type_synonym Plan = "(int, double list) jsmap"

text \<open>
  A JavaScript string is a sequence of UTF-16 code units; \<open>utf16\<close> writes an ASCII literal
  as one.
\<close>

type_synonym js_string = "int list"

definition utf16 :: "string \<Rightarrow> js_string" where
  "utf16 s = map of_char s"

section \<open>Weekly planner: initial generation\<close>

text \<open>
  The greedy loop of \<open>WeeklyPlannerView.tsx\<close>, lines 59-63 (and again 115-119):
  \<^verbatim>\<open>while (pendingHours > 0) { const h = Math.min(pendingHours, weeklyLoad);
      projectSchedule.push(h); pendingHours -= h; }\<close>
  The subtraction is a subtraction of doubles. The loop itself does not test
  \<open>weeklyLoad\<close>, and a subtraction may round back to \<open>pendingHours\<close>, so it is a partial
  function: \<open>None\<close> means that it never leaves the loop.
\<close>

partial_function (option) fill_weeks :: "double \<Rightarrow> double \<Rightarrow> double list \<Rightarrow> double list option" where
  "fill_weeks pendingHours weeklyLoad projectSchedule =
     (if pendingHours > 0
      then (let hoursThisWeek = min pendingHours weeklyLoad
            in fill_weeks (dsub pendingHours hoursThisWeek) weeklyLoad
                 (projectSchedule @ [hoursThisWeek]))
      else Some projectSchedule)"

declare fill_weeks.simps [code]

text \<open>Lines 57-67: the guard around the loop, for one project.\<close>

definition autoSchedule :: "double \<Rightarrow> double \<Rightarrow> double list option" where
  "autoSchedule pendingHours weeklyLoad =
     (if pendingHours > 0 \<and> weeklyLoad > 0 then fill_weeks pendingHours weeklyLoad [] else Some [])"

text \<open>Lines 52-68: \<open>devProjects.forEach\<close> filling \<open>newPlan\<close>.\<close>

fun autoPlan_loop :: "WorkItem list \<Rightarrow> Plan \<Rightarrow> Plan option" where
  "autoPlan_loop [] newPlan = Some newPlan"
| "autoPlan_loop (project # rest) newPlan =
     (let pendingHours = or_zero (Custom_Hspendientes project);
          weeklyLoad = or_zero (Custom_Cargasemanal project)
      in do {
        projectSchedule \<leftarrow> autoSchedule pendingHours weeklyLoad;
        autoPlan_loop rest (map_set newPlan (wi_id project) projectSchedule)
      })"

definition autoPlan :: "WorkItem list \<Rightarrow> Plan option" where
  "autoPlan devProjects = autoPlan_loop devProjects []"

text \<open>
  The schedule of the loop on whole numbers of hours, where no subtraction rounds: used to
  describe the result of \<open>fill_weeks\<close> there.
\<close>

function greedy_weeks :: "int \<Rightarrow> int \<Rightarrow> int list" where
  "greedy_weeks p c = (if p > 0 \<and> c > 0 then min p c # greedy_weeks (p - min p c) c else [])"
  by pat_completeness auto
termination
  by (relation "measure (\<lambda>(p, c). nat p)") auto

declare greedy_weeks.simps [simp del]

text \<open>
  Whole numbers of hours: \<open>whole\<close> is an integer value, \<open>whole_hours\<close> one from \<open>0\<close> to
  \<open>2 ^ 53\<close>, \<open>whole_schedule\<close> a schedule of non-negative whole entries that add up to at
  most \<open>2 ^ 53\<close>. On these every sum and difference the planner takes is exact.
\<close>

definition whole :: "double \<Rightarrow> bool" where
  "whole x = (x = of_int \<lfloor>x\<rfloor>)"

definition whole_hours :: "double \<Rightarrow> bool" where
  "whole_hours x = (whole x \<and> 0 \<le> x \<and> x \<le> 2 ^ 53)"

definition whole_schedule :: "double list \<Rightarrow> bool" where
  "whole_schedule xs = ((\<forall>h \<in> set xs. whole h \<and> 0 \<le> h) \<and> sum_list xs \<le> 2 ^ 53)"

section \<open>Weekly planner: editing one week\<close>

text \<open>
  \<open>parseInt(hoursStr, 10)\<close> is a builtin of the language. Following ECMAScript: leading
  white space (\<open>WhiteSpace\<close> and \<open>LineTerminator\<close> code points) is skipped, one sign is
  read, then the longest prefix of decimal digits; no digit at all gives \<open>NaN\<close> (here
  \<open>None\<close>); otherwise the result is the number nearest to the signed integer read.
\<close>

definition is_js_space :: "int \<Rightarrow> bool" where
  "is_js_space c =
     (c \<in> {9, 10, 11, 12, 13, 32, 160, 5760, 8232, 8233, 8239, 8287, 12288, 65279}
      \<or> (8192 \<le> c \<and> c \<le> 8202))"

definition is_digit :: "int \<Rightarrow> bool" where
  "is_digit c = (48 \<le> c \<and> c \<le> 57)"

definition digits_value :: "js_string \<Rightarrow> int" where
  "digits_value ds = foldl (\<lambda>acc c. acc * 10 + (c - 48)) 0 ds"

definition parseInt10 :: "js_string \<Rightarrow> double option" where
  "parseInt10 inputString =
     (let S = dropWhile is_js_space inputString;
          sign = (if S \<noteq> [] \<and> hd S = 45 then - 1 else 1 :: int);
          S' = (if S \<noteq> [] \<and> (hd S = 43 \<or> hd S = 45) then tl S else S);
          Z = takeWhile is_digit S'
      in if Z = [] then None else Some (fl (of_int (sign * digits_value Z))))"

text \<open>Line 87: \<open>isNaN(newHours) || newHours < 0 ? 0 : newHours\<close>.\<close>

definition validatedHours :: "double option \<Rightarrow> double" where
  "validatedHours newHours = (case newHours of None \<Rightarrow> 0 | Some n \<Rightarrow> if n < 0 then 0 else n)"

text \<open>Lines 102-104: \<open>while (currentSchedule.length <= weekIndex) currentSchedule.push(0)\<close>.\<close>

function pad_weeks :: "double list \<Rightarrow> nat \<Rightarrow> double list" where
  "pad_weeks currentSchedule weekIndex =
     (if length currentSchedule \<le> weekIndex then pad_weeks (currentSchedule @ [0]) weekIndex
      else currentSchedule)"
  by pat_completeness auto
termination
  by (relation "measure (\<lambda>(s, w). Suc w - length s)") auto

declare pad_weeks.simps [simp del]

text \<open>Lines 125-127: the loop popping trailing zeros.\<close>

function trim_zeros :: "double list \<Rightarrow> double list" where
  "trim_zeros finalSchedule =
     (if length finalSchedule > 0 \<and> finalSchedule ! (length finalSchedule - 1) = 0
      then trim_zeros (butlast finalSchedule) else finalSchedule)"
  by pat_completeness auto
termination
  by (relation "measure length") auto

declare trim_zeros.simps [simp del]

text \<open>
  Lines 99-127 for one project: the schedule that replaces the project's entry. The tail
  loop is \<open>fill_weeks\<close> again, entered under the guard of line 114.
\<close>

definition rebalance :: "double \<Rightarrow> double \<Rightarrow> double list \<Rightarrow> nat \<Rightarrow> double \<Rightarrow> double list option" where
  "rebalance originalPending weeklyLoad oldSchedule weekIndex hours =
     (let currentSchedule = pad_weeks oldSchedule weekIndex;
          currentSchedule = currentSchedule[weekIndex := hours];
          totalPlannedSoFar = js_sum (take (weekIndex + 1) currentSchedule);
          remainingToPlan = dsub originalPending totalPlannedSoFar
      in do {
        rebalancedTail \<leftarrow> (if remainingToPlan > 0 \<and> weeklyLoad > 0
                           then fill_weeks remainingToPlan weeklyLoad [] else Some []);
        Some (trim_zeros (take (weekIndex + 1) currentSchedule @ rebalancedTail))
      })"

text \<open>
  \<open>handleHoursChange\<close>, lines 85-132 (the spec's \<open>applyEdit\<close>): the state update of
  \<open>setPlan\<close> as a function of the current plan. \<open>weekIndex\<close> is a column index of the
  table, a natural number.
\<close>

definition handleHoursChange :: "WorkItem list \<Rightarrow> Plan \<Rightarrow> int \<Rightarrow> nat \<Rightarrow> js_string \<Rightarrow> Plan option" where
  "handleHoursChange devProjects currentPlan projectId weekIndex hoursStr =
     (let newHours = parseInt10 hoursStr;
          hours = validatedHours newHours
      in case find (\<lambda>p. wi_id p = projectId) devProjects of
           None \<Rightarrow> Some currentPlan
         | Some project \<Rightarrow>
             (let originalPending = or_zero (Custom_Hspendientes project);
                  weeklyLoad = or_zero (Custom_Cargasemanal project);
                  oldSchedule = (case map_get currentPlan projectId of None \<Rightarrow> [] | Some s \<Rightarrow> s)
              in do {
                finalSchedule \<leftarrow> rebalance originalPending weeklyLoad oldSchedule weekIndex hours;
                Some (map_set currentPlan projectId finalSchedule)
              }))"



text \<open>
  The edit as the specification words it: the clamped value \<open>max(0, parsedValue)\<close>, \<open>0\<close>
  for input that is not a number; the old schedule extended with zeros through the edited
  week, overwritten there and cut after the edited week; trailing zeros removed.
\<close>

definition clamped :: "double option \<Rightarrow> double" where
  "clamped parsedValue = (case parsedValue of None \<Rightarrow> 0 | Some v \<Rightarrow> max 0 v)"

definition edited_prefix :: "double list \<Rightarrow> nat \<Rightarrow> double \<Rightarrow> double list" where
  "edited_prefix oldSchedule weekIndex hours =
     take (Suc weekIndex)
       ((oldSchedule @ replicate (Suc weekIndex - length oldSchedule) 0)[weekIndex := hours])"

definition strip_trailing_zeros :: "double list \<Rightarrow> double list" where
  "strip_trailing_zeros xs = rev (dropWhile (\<lambda>h. h = 0) (rev xs))"

section \<open>Example projects\<close>

text \<open>
  The project of the specification's examples (100 pending hours, 40 hours a week), the same
  project with a weekly load of zero, a second project, a project with fractional hours
  (1 pending hour, 0.3 hours a week) and one whose pending hours are beyond \<open>2 ^ 53\<close>.
\<close>

definition project_100_40 :: WorkItem where
  "project_100_40 = \<lparr>wi_id = 1, System_WorkItemType = ''Feature'', System_Title = ''A'',
     System_Parent = None, Custom_Hspendientes = Some 100, Custom_Cargasemanal = Some 40,
     Custom_Horas = None\<rparr>"

definition project_100_0 :: WorkItem where
  "project_100_0 = \<lparr>wi_id = 1, System_WorkItemType = ''Feature'', System_Title = ''A'',
     System_Parent = None, Custom_Hspendientes = Some 100, Custom_Cargasemanal = Some 0,
     Custom_Horas = None\<rparr>"

definition project_2 :: WorkItem where
  "project_2 = \<lparr>wi_id = 2, System_WorkItemType = ''Feature'', System_Title = ''B'',
     System_Parent = None, Custom_Hspendientes = Some 30, Custom_Cargasemanal = Some 30,
     Custom_Horas = None\<rparr>"

definition project_fraction :: WorkItem where
  "project_fraction = \<lparr>wi_id = 3, System_WorkItemType = ''Feature'', System_Title = ''C'',
     System_Parent = None, Custom_Hspendientes = Some 1, Custom_Cargasemanal = Some (fl (3 / 10)),
     Custom_Horas = None\<rparr>"


text \<open>
  The schedule that the initial generation gives the project with fractional hours: three
  weeks of 0.3 hours and what the three subtractions leave of the pending hour.
\<close>

definition schedule_fraction :: "double list" where
  "schedule_fraction = [fl (3 / 10), fl (3 / 10), fl (3 / 10), 900719925474099 / 9007199254740992]"

section \<open>Calendar projection\<close>

















section \<open>Hierarchy resolver\<close>

text \<open>
  \<open>hierarchyMap\<close> of the task analysis view. The three maps of the resolver are JavaScript
  \<open>Map\<close>s: \<open>allItemsById\<close> from item id to item, \<open>traversalMemo\<close> from item id to the
  root found (\<open>None\<close> for \<open>null\<close>), \<open>idMap\<close> and \<open>titleMap\<close> from item id to the id and
  title of its root.
\<close>

type_synonym ItemsById = "(int, WorkItem) jsmap"

type_synonym TraversalMemo = "(int, WorkItem option) jsmap"

text \<open>
  \<open>findRootPbi\<close>: the memo is threaded through the call and returned. The recursion follows
  parent ids with no bound, so the function is partial: \<open>None\<close> means that the walk never
  returns. \<open>!parentId\<close> holds for a missing parent id and for the id \<open>0\<close>.
\<close>

partial_function (option) findRootPbi ::
  "ItemsById \<Rightarrow> TraversalMemo \<Rightarrow> int \<Rightarrow> (WorkItem option \<times> TraversalMemo) option" where
  "findRootPbi allItemsById traversalMemo itemId =
     (case map_get traversalMemo itemId of
        Some memoized \<Rightarrow> Some (memoized, traversalMemo)
      | None \<Rightarrow>
          (case map_get allItemsById itemId of
             None \<Rightarrow> Some (None, map_set traversalMemo itemId None)
           | Some item \<Rightarrow>
               if System_WorkItemType item = ''Product Backlog Item''
               then Some (Some item, map_set traversalMemo itemId (Some item))
               else (case System_Parent item of
                       None \<Rightarrow> Some (None, map_set traversalMemo itemId None)
                     | Some parentId \<Rightarrow>
                         if parentId = 0 then Some (None, map_set traversalMemo itemId None)
                         else do {
                           (rootPbi, traversalMemo') \<leftarrow> findRootPbi allItemsById traversalMemo parentId;
                           Some (rootPbi, map_set traversalMemo' itemId rootPbi)
                         })))"

declare findRootPbi.simps [code]

text \<open>Lines 217-219: \<open>allItemsById\<close>, the root items set after (and over) the items.\<close>

definition allItemsById :: "WorkItem list \<Rightarrow> WorkItem list \<Rightarrow> ItemsById" where
  "allItemsById allItems rootItems =
     fold (\<lambda>pbi m. map_set m (wi_id pbi) pbi) rootItems
       (fold (\<lambda>item m. map_set m (wi_id item) item) allItems [])"

text \<open>Lines 252-261: \<open>allItems.forEach\<close>, filling \<open>titleMap\<close> and \<open>idMap\<close>.\<close>

fun resolve_items ::
  "ItemsById \<Rightarrow> WorkItem list \<Rightarrow> TraversalMemo \<times> (int, string) jsmap \<times> (int, int) jsmap
     \<Rightarrow> (TraversalMemo \<times> (int, string) jsmap \<times> (int, int) jsmap) option" where
  "resolve_items byId [] state = Some state"
| "resolve_items byId (item # rest) (traversalMemo, titleMap, idMap) =
     do {
       (rootPbi, traversalMemo') \<leftarrow> findRootPbi byId traversalMemo (wi_id item);
       (case rootPbi of
          Some pbi \<Rightarrow>
            resolve_items byId rest
              (traversalMemo', map_set titleMap (wi_id item) (System_Title pbi),
               map_set idMap (wi_id item) (wi_id pbi))
        | None \<Rightarrow>
            resolve_items byId rest (traversalMemo', titleMap, map_set idMap (wi_id item) (wi_id item)))
     }"

text \<open>
  \<open>hierarchyMap\<close>, lines 212-265. Both inputs may be \<open>null\<close> (\<open>None\<close>); then both maps are
  empty.
\<close>

definition hierarchyMap ::
  "WorkItem list option \<Rightarrow> WorkItem list option \<Rightarrow> ((int, string) jsmap \<times> (int, int) jsmap) option" where
  "hierarchyMap allItems rootItems =
     (case (allItems, rootItems) of
        (Some items, Some roots) \<Rightarrow>
          do {
            (traversalMemo, titleMap, idMap) \<leftarrow> resolve_items (allItemsById items roots) items ([], [], []);
            Some (titleMap, idMap)
          }
      | _ \<Rightarrow> Some ([], []))"

text \<open>
  An example collection: a backlog item whose own parent id points outside the collection,
  two tasks under it, a task without parent and a task whose parent is not in the
  collection.
\<close>

definition pbi_1 :: WorkItem where
  "pbi_1 = \<lparr>wi_id = 1, System_WorkItemType = ''Product Backlog Item'', System_Title = ''Root'',
     System_Parent = Some 9, Custom_Hspendientes = None, Custom_Cargasemanal = None,
     Custom_Horas = None\<rparr>"

definition task_2 :: WorkItem where
  "task_2 = \<lparr>wi_id = 2, System_WorkItemType = ''Task'', System_Title = ''T2'',
     System_Parent = Some 1, Custom_Hspendientes = None, Custom_Cargasemanal = None,
     Custom_Horas = None\<rparr>"

definition task_3 :: WorkItem where
  "task_3 = \<lparr>wi_id = 3, System_WorkItemType = ''Task'', System_Title = ''T3'',
     System_Parent = Some 1, Custom_Hspendientes = None, Custom_Cargasemanal = None,
     Custom_Horas = None\<rparr>"

definition task_4 :: WorkItem where
  "task_4 = \<lparr>wi_id = 4, System_WorkItemType = ''Task'', System_Title = ''T4'',
     System_Parent = None, Custom_Hspendientes = None, Custom_Cargasemanal = None,
     Custom_Horas = None\<rparr>"

definition task_5 :: WorkItem where
  "task_5 = \<lparr>wi_id = 5, System_WorkItemType = ''Task'', System_Title = ''T5'',
     System_Parent = Some 77, Custom_Hspendientes = None, Custom_Cargasemanal = None,
     Custom_Horas = None\<rparr>"

text \<open>
  The walk as the specification gives it (section 4.1), without the memo: an absent id
  resolves to nothing, an item of the root type to itself, an item that is not of the root
  type and has no parent to nothing, any other item to what its parent resolves to.
\<close>

inductive root_of :: "ItemsById \<Rightarrow> int \<Rightarrow> WorkItem option \<Rightarrow> bool" for byId where
  absent: "map_get byId i = None \<Longrightarrow> root_of byId i None"
| is_root: "map_get byId i = Some item \<Longrightarrow> System_WorkItemType item = ''Product Backlog Item''
    \<Longrightarrow> root_of byId i (Some item)"
| orphan: "map_get byId i = Some item \<Longrightarrow> System_WorkItemType item \<noteq> ''Product Backlog Item''
    \<Longrightarrow> System_Parent item = None \<or> System_Parent item = Some 0 \<Longrightarrow> root_of byId i None"
| parent: "map_get byId i = Some item \<Longrightarrow> System_WorkItemType item \<noteq> ''Product Backlog Item''
    \<Longrightarrow> System_Parent item = Some p \<Longrightarrow> p \<noteq> 0 \<Longrightarrow> root_of byId p r \<Longrightarrow> root_of byId i r"

text \<open>A memo that holds only results of the walk.\<close>

definition memo_ok :: "ItemsById \<Rightarrow> TraversalMemo \<Rightarrow> bool" where
  "memo_ok byId memo = (\<forall>i r. map_get memo i = Some r \<longrightarrow> root_of byId i r)"

text \<open>
  An ancestor walk that ends without meeting the root type: \<open>ps\<close> are the parent ids
  followed from \<open>i\<close>; the last id reached is either absent from the collection or an item
  that is not of the root type and has no parent id.
\<close>

fun dead_end_walk :: "ItemsById \<Rightarrow> int \<Rightarrow> int list \<Rightarrow> bool" where
  "dead_end_walk byId i [] =
     (case map_get byId i of
        None \<Rightarrow> True
      | Some item \<Rightarrow> System_WorkItemType item \<noteq> ''Product Backlog Item''
          \<and> (System_Parent item = None \<or> System_Parent item = Some 0))"
| "dead_end_walk byId i (p # ps) =
     (case map_get byId i of
        None \<Rightarrow> False
      | Some item \<Rightarrow> System_WorkItemType item \<noteq> ''Product Backlog Item''
          \<and> System_Parent item = Some p \<and> p \<noteq> 0 \<and> dead_end_walk byId p ps)"

text \<open>The parent-id graph of the collection: an edge from each id to the parent id of its item.\<close>

definition parent_edges :: "ItemsById \<Rightarrow> (int \<times> int) set" where
  "parent_edges byId = {(i, p). \<exists>item. map_get byId i = Some item \<and> System_Parent item = Some p}"

text \<open>
  What \<open>idMap\<close> and \<open>titleMap\<close> hold for an id whose walk gave \<open>r\<close>: the id of the root, or
  the item's own id when there is none (the fallback of line 259), and the root's title.
\<close>

definition root_id_or_self :: "int \<Rightarrow> WorkItem option \<Rightarrow> int" where
  "root_id_or_self k r = (case r of Some pbi \<Rightarrow> wi_id pbi | None \<Rightarrow> k)"

definition maps_ok :: "ItemsById \<Rightarrow> (int, string) jsmap \<Rightarrow> (int, int) jsmap \<Rightarrow> bool" where
  "maps_ok byId titleMap idMap =
     (\<forall>k. case map_get idMap k of
             None \<Rightarrow> map_get titleMap k = None
           | Some v \<Rightarrow> (\<exists>r. root_of byId k r \<and> v = root_id_or_self k r
                           \<and> map_get titleMap k = map_option System_Title r))"

text \<open>Two tasks that name each other as parent.\<close>

definition cycle_a :: WorkItem where
  "cycle_a = \<lparr>wi_id = 1, System_WorkItemType = ''Task'', System_Title = ''a'',
     System_Parent = Some 2, Custom_Hspendientes = None, Custom_Cargasemanal = None,
     Custom_Horas = None\<rparr>"

definition cycle_b :: WorkItem where
  "cycle_b = \<lparr>wi_id = 2, System_WorkItemType = ''Task'', System_Title = ''b'',
     System_Parent = Some 1, Custom_Hspendientes = None, Custom_Cargasemanal = None,
     Custom_Horas = None\<rparr>"


section \<open>JavaScript numbers: auxiliary facts\<close>

lemma bit_length_bounds:
  "0 < n \<Longrightarrow> \<exists>k. bit_length n = int k + 1 \<and> 2 ^ k \<le> n \<and> n < 2 ^ (k + 1)"
proof (induction n rule: bit_length.induct)
  case (1 n)
  show ?case
  proof (cases "n = 1")
    case True
    have "bit_length 1 = 1 + bit_length 0" by (subst bit_length.simps) simp
    also have "bit_length 0 = 0" by (subst bit_length.simps) simp
    finally show ?thesis using True by (intro exI [of _ 0]) simp
  next
    case False
    then have pos: "0 < n div 2" using "1.prems" by simp
    from "1.IH" [OF _ pos] "1.prems" obtain k where
      k: "bit_length (n div 2) = int k + 1" "2 ^ k \<le> n div 2" "n div 2 < 2 ^ (k + 1)"
      by auto
    have "bit_length n = 1 + bit_length (n div 2)"
      using "1.prems" by (subst bit_length.simps) simp
    then have "bit_length n = int (Suc k) + 1" using k(1) by simp
    moreover have "2 ^ Suc k \<le> n" using k(2) by simp
    moreover have "n < 2 ^ (Suc k + 1)" using k(3) by simp
    ultimately show ?thesis by blast
  qed
qed



lemma round_half_even_of_int: "round_half_even (of_int k) = k"
  by (simp add: round_half_even_def)

lemma round_half_even_bounds: "\<lfloor>x\<rfloor> \<le> round_half_even x \<and> round_half_even x \<le> \<lfloor>x\<rfloor> + 1"
  by (simp add: round_half_even_def Let_def)

lemma fl_zero: "fl 0 = 0"
  by (simp add: fl_def)

lemma fl_minus: "fl (- x) = - fl x"
  by (simp add: fl_def Let_def)

lemma fl_exact:
  assumes "0 < x" and "x / 2 powi (max (binary_exponent x - 52) (- 1074)) = of_int m"
  shows "fl x = x"
proof -
  have "fl x = of_int m * 2 powi (max (binary_exponent x - 52) (- 1074))"
    using assms by (simp add: fl_def Let_def round_half_even_of_int)
  also have "\<dots> = x" using assms(2) [symmetric] by simp
  finally show ?thesis .
qed

lemma fl_of_nat_like:
  assumes "0 < n" and "n \<le> 2 ^ 53"
  shows "fl (of_int n) = of_int n"
proof -
  obtain k where k: "bit_length n = int k + 1" "2 ^ k \<le> n" "n < 2 ^ (k + 1)"
    using bit_length_bounds [OF assms(1)] by blast
  have be: "binary_exponent (of_int n) = int k"
    using assms(1) k(1) by (simp add: binary_exponent_def)
  have "(2::int) ^ k \<le> 2 ^ 53" using k(2) assms(2) by linarith
  then have k53: "k \<le> 53" by (rule power_le_imp_le_exp [rotated]) simp
  have e: "max (binary_exponent (of_int n) - 52) (- 1074) = int k - 52"
    unfolding be by simp
  have "\<exists>m. of_int n / (2::rat) powi (int k - 52) = of_int m"
  proof (cases "k \<le> 52")
    case True
    then have "int k - 52 = - int (52 - k)" by simp
    then have "(2::rat) powi (int k - 52) = inverse (2 ^ (52 - k))"
      by (simp only: power_int_minus power_int_of_nat)
    then have "of_int n / (2::rat) powi (int k - 52) = of_int (n * 2 ^ (52 - k))"
      by (simp add: field_simps)
    then show ?thesis by blast
  next
    case False
    then have k': "k = 53" using k53 by simp
    then have "n = 2 ^ 53" using assms(2) \<open>2 ^ k \<le> n\<close> by simp
    then have "of_int n / (2::rat) powi (int k - 52) = of_int (2 ^ 52)"
      using k' by simp
    then show ?thesis by blast
  qed
  then obtain m where "of_int n / (2::rat) powi (max (binary_exponent (of_int n) - 52) (- 1074)) = of_int m"
    unfolding e by blast
  then show ?thesis using assms(1) by (intro fl_exact) simp_all
qed

lemma fl_of_int: "\<bar>n\<bar> \<le> 2 ^ 53 \<Longrightarrow> fl (of_int n) = of_int n"
proof -
  assume a: "\<bar>n\<bar> \<le> 2 ^ 53"
  consider "n = 0" | "0 < n" | "n < 0" by linarith
  then show ?thesis
  proof cases
    case 1
    then show ?thesis by (simp add: fl_zero)
  next
    case 2
    then show ?thesis using a by (simp add: fl_of_nat_like)
  next
    case 3
    then have "fl (of_int (- n)) = of_int (- n)" using a by (intro fl_of_nat_like) simp_all
    then show ?thesis using fl_minus [of "of_int n"] by simp
  qed
qed

lemma fl_nonneg: "0 \<le> x \<Longrightarrow> 0 \<le> fl x"
proof -
  assume x: "0 \<le> x"
  have "0 \<le> round_half_even (\<bar>x\<bar> / 2 powi e)" for e
  proof -
    have "0 \<le> \<bar>x\<bar> / 2 powi e" by simp
    then have "0 \<le> \<lfloor>\<bar>x\<bar> / 2 powi e\<rfloor>" by simp
    then show ?thesis using round_half_even_bounds [of "\<bar>x\<bar> / 2 powi e"] by linarith
  qed
  then show ?thesis using x by (simp add: fl_def Let_def)
qed




section \<open>Initial generation: auxiliary facts\<close>

lemma whole_of_int: "whole (of_int n)"
  by (simp add: whole_def)

lemma wholeD: "whole x \<Longrightarrow> x = of_int \<lfloor>x\<rfloor>"
  by (simp add: whole_def)

lemma whole_hoursD:
  "whole_hours x \<Longrightarrow> x = of_int \<lfloor>x\<rfloor> \<and> 0 \<le> \<lfloor>x\<rfloor> \<and> \<lfloor>x\<rfloor> \<le> 2 ^ 53"
proof -
  assume a: "whole_hours x"
  then have x: "x = of_int \<lfloor>x\<rfloor>" by (simp add: whole_hours_def whole_def)
  have "0 \<le> \<lfloor>x\<rfloor>" using a by (simp add: whole_hours_def)
  moreover have "of_int \<lfloor>x\<rfloor> \<le> (of_int (2 ^ 53) :: rat)"
    using a x by (simp add: whole_hours_def)
  then have "\<lfloor>x\<rfloor> \<le> 2 ^ 53" by (simp only: of_int_le_iff)
  ultimately show ?thesis using x by simp
qed

lemma dsub_whole:
  "\<bar>a - b\<bar> \<le> 2 ^ 53 \<Longrightarrow> dsub (of_int a) (of_int b) = of_int (a - b)"
  using fl_of_int [of "a - b"] by (simp add: dsub_def)

lemma dadd_whole:
  "\<bar>a + b\<bar> \<le> 2 ^ 53 \<Longrightarrow> dadd (of_int a) (of_int b) = of_int (a + b)"
  using fl_of_int [of "a + b"] by (simp add: dadd_def)

lemma fill_weeks_whole:
  "0 < c \<Longrightarrow> p \<le> 2 ^ 53 \<Longrightarrow>
   fill_weeks (of_int p) (of_int c) acc = Some (acc @ map of_int (greedy_weeks p c))"
proof (induction p c arbitrary: acc rule: greedy_weeks.induct)
  case (1 p c)
  show ?case
  proof (cases "0 < p")
    case True
    have m: "min (of_int p) (of_int c) = (of_int (min p c) :: rat)" by (simp add: min_def)
    have "\<bar>p - min p c\<bar> \<le> 2 ^ 53" using True "1.prems" by (simp add: min_def)
    then have d: "dsub (of_int p) (of_int (min p c)) = of_int (p - min p c)" by (rule dsub_whole)
    have "fill_weeks (of_int p) (of_int c) acc
            = fill_weeks (of_int (p - min p c)) (of_int c) (acc @ [of_int (min p c)])"
      using True by (subst fill_weeks.simps) (simp add: Let_def m d del: of_int_diff)
    also have "\<dots> = Some ((acc @ [of_int (min p c)]) @ map of_int (greedy_weeks (p - min p c) c))"
      using "1.IH" [of "acc @ [of_int (min p c)]"] True "1.prems" by (simp add: min_def)
    also have "\<dots> = Some (acc @ map of_int (greedy_weeks p c))"
      using True "1.prems" by (subst (2) greedy_weeks.simps) simp
    finally show ?thesis .
  next
    case False
    then show ?thesis
      by (subst fill_weeks.simps, subst greedy_weeks.simps) simp
  qed
qed

lemma sum_list_greedy_weeks: "0 \<le> p \<Longrightarrow> 0 < c \<Longrightarrow> sum_list (greedy_weeks p c) = p"
proof (induction p c rule: greedy_weeks.induct)
  case (1 p c)
  show ?case
  proof (cases "0 < p")
    case True
    then have "sum_list (greedy_weeks p c) = min p c + sum_list (greedy_weeks (p - min p c) c)"
      using "1.prems" by (subst greedy_weeks.simps) simp
    also have "\<dots> = min p c + (p - min p c)"
      using "1.IH" True "1.prems" by simp
    finally show ?thesis by simp
  next
    case False
    then show ?thesis using "1.prems" by (subst greedy_weeks.simps) simp
  qed
qed

lemma length_greedy_weeks:
  "0 \<le> p \<Longrightarrow> 0 < c \<Longrightarrow> int (length (greedy_weeks p c)) = \<lceil>of_int p / (of_int c :: rat)\<rceil>"
proof (induction p c rule: greedy_weeks.induct)
  case (1 p c)
  show ?case
  proof (cases "0 < p")
    case False
    then have "p = 0" using "1.prems" by simp
    then show ?thesis by (subst greedy_weeks.simps) simp
  next
    case True
    have step: "int (length (greedy_weeks p c)) = 1 + int (length (greedy_weeks (p - min p c) c))"
      using True "1.prems" by (subst greedy_weeks.simps) simp
    have ih: "int (length (greedy_weeks (p - min p c) c))
                = \<lceil>of_int (p - min p c) / (of_int c :: rat)\<rceil>"
      using "1.IH" True "1.prems" by simp
    show ?thesis
    proof (cases "p \<le> c")
      case True
      then have "min p c = p" by simp
      moreover have "\<lceil>of_int p / (of_int c :: rat)\<rceil> = 1"
      proof (rule ceiling_unique)
        show "of_int (1::int) - 1 < of_int p / (of_int c :: rat)"
          using \<open>0 < p\<close> "1.prems" by simp
        show "of_int p / (of_int c :: rat) \<le> of_int 1"
          using True "1.prems" by simp
      qed
      ultimately show ?thesis using step ih by simp
    next
      case False
      then have m: "min p c = c" by simp
      have "of_int (p - c) / (of_int c :: rat) = of_int p / of_int c - 1"
        using "1.prems" by (simp add: diff_divide_distrib)
      then have "\<lceil>of_int (p - c) / (of_int c :: rat)\<rceil> = \<lceil>of_int p / (of_int c :: rat)\<rceil> - 1"
        by simp
      then show ?thesis using step ih m by simp
    qed
  qed
qed

lemma greedy_weeks_pos: "x \<in> set (greedy_weeks p c) \<Longrightarrow> 0 < x"
proof (induction p c rule: greedy_weeks.induct)
  case (1 p c)
  show ?case
  proof (cases "0 < p \<and> 0 < c")
    case True
    then have "greedy_weeks p c = min p c # greedy_weeks (p - min p c) c"
      by (subst greedy_weeks.simps) simp
    then show ?thesis using "1.IH" "1.prems" True by auto
  next
    case False
    then have "greedy_weeks p c = []" by (subst greedy_weeks.simps) simp
    then show ?thesis using "1.prems" by simp
  qed
qed

lemma foldl_dadd_whole:
  "\<forall>h \<in> set xs. 0 \<le> h \<Longrightarrow> 0 \<le> a \<Longrightarrow> a + sum_list xs \<le> 2 ^ 53 \<Longrightarrow>
   foldl (\<lambda>sum h. dadd sum h) (of_int a) (map of_int xs) = of_int (a + sum_list xs)"
proof (induction xs arbitrary: a)
  case Nil
  show ?case by simp
next
  case (Cons x xs)
  have rest: "0 \<le> sum_list xs" using Cons.prems(1) by (intro sum_list_nonneg) simp
  have x: "0 \<le> x" using Cons.prems(1) by simp
  have "\<bar>a + x\<bar> \<le> 2 ^ 53" using Cons.prems x rest by simp
  then have d: "dadd (of_int a) (of_int x) = of_int (a + x)" by (rule dadd_whole)
  have "foldl (\<lambda>sum h. dadd sum h) (of_int a) (map of_int (x # xs))
          = foldl (\<lambda>sum h. dadd sum h) (of_int (a + x)) (map of_int xs)"
    by (simp add: d del: of_int_add)
  also have "\<dots> = of_int (a + x + sum_list xs)"
    using Cons.prems x by (intro Cons.IH) simp_all
  finally show ?case by (simp add: add.assoc)
qed

lemma whole_schedule_ints:
  assumes "whole_schedule xs"
  shows "\<exists>ns. xs = map of_int ns \<and> (\<forall>n \<in> set ns. 0 \<le> n) \<and> sum_list ns \<le> 2 ^ 53"
proof -
  have w: "\<And>h. h \<in> set xs \<Longrightarrow> h = of_int \<lfloor>h\<rfloor> \<and> 0 \<le> h"
    using assms by (auto simp: whole_schedule_def whole_def)
  have xs: "xs = map of_int (map floor xs)"
    using w by (simp add: map_idI)
  have nn: "\<forall>n \<in> set (map floor xs). 0 \<le> n" using w by auto
  have "(of_int (sum_list (map floor xs)) :: rat) = sum_list (map of_int (map floor xs))"
    by (induction xs) simp_all
  also have "\<dots> = sum_list xs" using xs by simp
  also have "\<dots> \<le> of_int (2 ^ 53)" using assms by (simp add: whole_schedule_def)
  finally have "sum_list (map floor xs) \<le> 2 ^ 53" by (simp only: of_int_le_iff)
  then show ?thesis using xs nn by blast
qed

lemma of_int_sum_list_rat: "(of_int (sum_list ns) :: rat) = sum_list (map of_int ns)"
  by (induction ns) simp_all

lemma js_sum_ints:
  "\<forall>n \<in> set ns. 0 \<le> n \<Longrightarrow> sum_list ns \<le> 2 ^ 53 \<Longrightarrow> js_sum (map of_int ns) = of_int (sum_list ns)"
  using foldl_dadd_whole [of ns 0] by (simp add: js_sum_def)

lemma js_sum_whole: "whole_schedule xs \<Longrightarrow> js_sum xs = sum_list xs"
proof -
  assume "whole_schedule xs"
  then obtain ns where ns: "xs = map of_int ns" "\<forall>n \<in> set ns. 0 \<le> n" "sum_list ns \<le> 2 ^ 53"
    using whole_schedule_ints by blast
  then show ?thesis by (simp add: js_sum_ints of_int_sum_list_rat)
qed

lemma autoSchedule_whole_eq:
  assumes "whole_hours pending" and "whole capacity" and "0 < capacity"
  shows "autoSchedule pending capacity
           = Some (map of_int (greedy_weeks \<lfloor>pending\<rfloor> \<lfloor>capacity\<rfloor>))"
proof -
  have p: "pending = of_int \<lfloor>pending\<rfloor>" "0 \<le> \<lfloor>pending\<rfloor>" "\<lfloor>pending\<rfloor> \<le> 2 ^ 53"
    using whole_hoursD [OF assms(1)] by simp_all
  have c: "capacity = of_int \<lfloor>capacity\<rfloor>" using assms(2) by (rule wholeD)
  have cpos: "0 < \<lfloor>capacity\<rfloor>" using assms(3) c by (metis of_int_0_less_iff)
  show ?thesis
  proof (cases "0 < pending")
    case True
    have "fill_weeks (of_int \<lfloor>pending\<rfloor>) (of_int \<lfloor>capacity\<rfloor>) []
            = Some ([] @ map of_int (greedy_weeks \<lfloor>pending\<rfloor> \<lfloor>capacity\<rfloor>))"
      using cpos p(3) by (rule fill_weeks_whole)
    then show ?thesis using True assms(3) p(1) c by (simp add: autoSchedule_def)
  next
    case False
    then have "\<lfloor>pending\<rfloor> \<le> 0" using p by (metis of_int_le_0_iff not_less)
    then have "greedy_weeks \<lfloor>pending\<rfloor> \<lfloor>capacity\<rfloor> = []" by (subst greedy_weeks.simps) simp
    then show ?thesis using False by (simp add: autoSchedule_def)
  qed
qed




section \<open>Editing one week: auxiliary facts\<close>

text \<open>The three loops of the edit in closed form, and the edit on a project that is found.\<close>

lemma pad_weeks_eq: "pad_weeks s w = s @ replicate (Suc w - length s) 0"
proof (induction s w rule: pad_weeks.induct)
  case (1 s w)
  show ?case
  proof (cases "length s \<le> w")
    case True
    then have "pad_weeks s w = pad_weeks (s @ [0]) w" by (subst pad_weeks.simps) simp
    also have "\<dots> = (s @ [0]) @ replicate (Suc w - length (s @ [0])) 0" using 1 True by simp
    also have "\<dots> = s @ replicate (Suc w - length s) 0"
      using True by (simp add: Suc_diff_le replicate_append_same flip: replicate_Suc)
    finally show ?thesis .
  next
    case False
    then show ?thesis by (subst pad_weeks.simps) simp
  qed
qed

lemma trim_zeros_eq: "trim_zeros xs = strip_trailing_zeros xs"
proof (induction xs rule: trim_zeros.induct)
  case (1 xs)
  show ?case
  proof (cases "xs = []")
    case True
    then show ?thesis by (subst trim_zeros.simps) (simp add: strip_trailing_zeros_def)
  next
    case False
    then obtain ys y where xs: "xs = ys @ [y]" by (metis rev_exhaust)
    show ?thesis
    proof (cases "y = 0")
      case True
      then have "trim_zeros xs = trim_zeros ys" using xs by (subst trim_zeros.simps) simp
      also have "\<dots> = strip_trailing_zeros ys" using "1.IH" xs True by simp
      finally show ?thesis using xs True by (simp add: strip_trailing_zeros_def)
    next
      case False
      then show ?thesis using xs by (subst trim_zeros.simps) (simp add: strip_trailing_zeros_def)
    qed
  qed
qed

lemma map_get_map_set: "map_get (map_set m k v) k' = (if k' = k then Some v else map_get m k')"
  by (induction m) (auto simp: map_get_def)


lemma sum_list_strip: "sum_list (strip_trailing_zeros xs) = sum_list xs"
  by (induction xs rule: rev_induct) (auto simp: strip_trailing_zeros_def)

lemma set_strip_subset: "set (strip_trailing_zeros xs) \<subseteq> set xs"
  by (auto simp: strip_trailing_zeros_def dest: set_dropWhileD)

lemma whole_schedule_strip: "whole_schedule xs \<Longrightarrow> whole_schedule (strip_trailing_zeros xs)"
  using set_strip_subset [of xs] by (auto simp: whole_schedule_def sum_list_strip)

lemma validatedHours_eq:
  "validatedHours parsed = (case parsed of None \<Rightarrow> 0 | Some parsedValue \<Rightarrow> max 0 parsedValue)"
  by (simp add: validatedHours_def max_def split: option.splits)

lemma rebalance_eq:
  "rebalance P L old w v =
     map_option (\<lambda>tail. strip_trailing_zeros (edited_prefix old w v @ tail))
       (autoSchedule (dsub P (js_sum (edited_prefix old w v))) L)"
  by (cases "fill_weeks (dsub P (js_sum (edited_prefix old w v))) L []")
     (simp_all add: rebalance_def Let_def pad_weeks_eq trim_zeros_eq edited_prefix_def
        autoSchedule_def)



lemma handleHoursChange_found:
  assumes "find (\<lambda>p. wi_id p = projectId) devProjects = Some project"
  shows "handleHoursChange devProjects plan projectId w str =
     map_option (\<lambda>tail. map_set plan projectId
        (strip_trailing_zeros
           (edited_prefix (case map_get plan projectId of None \<Rightarrow> [] | Some s \<Rightarrow> s) w
                (case parseInt10 str of None \<Rightarrow> 0 | Some parsedValue \<Rightarrow> max 0 parsedValue)
            @ tail)))
       (autoSchedule
          (dsub (or_zero (Custom_Hspendientes project))
             (js_sum (edited_prefix (case map_get plan projectId of None \<Rightarrow> [] | Some s \<Rightarrow> s) w
                (case parseInt10 str of None \<Rightarrow> 0 | Some parsedValue \<Rightarrow> max 0 parsedValue))))
          (or_zero (Custom_Cargasemanal project)))"
  using assms
  by (simp add: handleHoursChange_def Let_def rebalance_eq validatedHours_eq
      map_option_case split: option.splits)

lemma handleHoursChange_not_found:
  "find (\<lambda>p. wi_id p = projectId) devProjects = None \<Longrightarrow>
   handleHoursChange devProjects plan projectId w str = Some plan"
  by (simp add: handleHoursChange_def Let_def)

text \<open>
  On whole hours the edit returns: the difference and the tail are exact.
\<close>

lemma remaining_whole:
  assumes "whole_hours P" and "whole_schedule prefix"
  shows "dsub P (js_sum prefix) = P - sum_list prefix"
    and "0 < P - sum_list prefix \<Longrightarrow> whole_hours (P - sum_list prefix)"
proof -
  obtain ns where ns: "prefix = map of_int ns" "\<forall>n \<in> set ns. 0 \<le> n" "sum_list ns \<le> 2 ^ 53"
    using whole_schedule_ints [OF assms(2)] by blast
  have p: "P = of_int \<lfloor>P\<rfloor>" "0 \<le> \<lfloor>P\<rfloor>" "\<lfloor>P\<rfloor> \<le> 2 ^ 53"
    using whole_hoursD [OF assms(1)] by simp_all
  have s0: "0 \<le> sum_list ns" using ns(2) by (intro sum_list_nonneg) simp
  have js: "js_sum prefix = of_int (sum_list ns)" using ns by (simp add: js_sum_ints)
  have sl: "sum_list prefix = of_int (sum_list ns)" using ns(1) by (simp add: of_int_sum_list_rat)
  have "\<bar>\<lfloor>P\<rfloor> - sum_list ns\<bar> \<le> 2 ^ 53" using p s0 ns(3) by simp
  then have "dsub (of_int \<lfloor>P\<rfloor>) (of_int (sum_list ns)) = of_int (\<lfloor>P\<rfloor> - sum_list ns)"
    by (rule dsub_whole)
  then show e: "dsub P (js_sum prefix) = P - sum_list prefix"
    using p(1) js sl by simp
  assume pos: "0 < P - sum_list prefix"
  have d: "P - sum_list prefix = of_int (\<lfloor>P\<rfloor> - sum_list ns)" using p(1) sl by simp
  have "\<lfloor>P\<rfloor> - sum_list ns \<le> 2 ^ 53" using p s0 by simp
  then have "(of_int (\<lfloor>P\<rfloor> - sum_list ns) :: rat) \<le> of_int (2 ^ 53)"
    by (simp only: of_int_le_iff)
  then show "whole_hours (P - sum_list prefix)"
    using pos unfolding d by (simp add: whole_hours_def whole_def)
qed

lemma autoSchedule_whole_facts:
  assumes "whole_hours pending" and "whole capacity" and "0 < capacity"
  shows "\<exists>schedule. autoSchedule pending capacity = Some schedule
           \<and> (\<forall>h \<in> set schedule. whole h \<and> 0 \<le> h)
           \<and> sum_list schedule = pending
           \<and> int (length schedule) = \<lceil>pending / capacity\<rceil>"
proof -
  have p: "pending = of_int \<lfloor>pending\<rfloor>" "0 \<le> \<lfloor>pending\<rfloor>" "\<lfloor>pending\<rfloor> \<le> 2 ^ 53"
    using whole_hoursD [OF assms(1)] by simp_all
  have c: "capacity = of_int \<lfloor>capacity\<rfloor>" using assms(2) by (rule wholeD)
  have cpos: "0 < \<lfloor>capacity\<rfloor>" using assms(3) c by (metis of_int_0_less_iff)
  let ?g = "greedy_weeks \<lfloor>pending\<rfloor> \<lfloor>capacity\<rfloor>"
  have a: "autoSchedule pending capacity = Some (map of_int ?g)"
    using assms by (rule autoSchedule_whole_eq)
  have w: "\<forall>h \<in> set (map rat_of_int ?g). whole h \<and> 0 \<le> h"
    using greedy_weeks_pos [of _ "\<lfloor>pending\<rfloor>" "\<lfloor>capacity\<rfloor>"]
    by (auto simp: whole_def dest!: less_imp_le)
  have s: "sum_list (map rat_of_int ?g) = pending"
    using sum_list_greedy_weeks [OF p(2) cpos] p(1) by (simp flip: of_int_sum_list_rat)
  have "int (length ?g) = \<lceil>of_int \<lfloor>pending\<rfloor> / (of_int \<lfloor>capacity\<rfloor> :: rat)\<rceil>"
    using p(2) cpos by (rule length_greedy_weeks)
  then have l: "int (length (map rat_of_int ?g)) = \<lceil>pending / capacity\<rceil>"
    using p(1) c by simp
  show ?thesis using a w s l by blast
qed


lemma fl_whole_hours: "whole_hours x \<Longrightarrow> fl x = x"
proof -
  assume a: "whole_hours x"
  have x: "x = of_int \<lfloor>x\<rfloor>" "0 \<le> \<lfloor>x\<rfloor>" "\<lfloor>x\<rfloor> \<le> 2 ^ 53"
    using whole_hoursD [OF a] by simp_all
  have "\<bar>\<lfloor>x\<rfloor>\<bar> \<le> 2 ^ 53" using x(2,3) by simp
  then have "fl (of_int \<lfloor>x\<rfloor>) = of_int \<lfloor>x\<rfloor>" by (rule fl_of_int)
  then show ?thesis using x(1) by simp
qed

lemma whole_hours_sum: "whole_schedule xs \<Longrightarrow> whole_hours (sum_list xs)"
proof -
  assume "whole_schedule xs"
  then obtain ns where ns: "xs = map of_int ns" "\<forall>n \<in> set ns. 0 \<le> n" "sum_list ns \<le> 2 ^ 53"
    using whole_schedule_ints by blast
  have s0: "0 \<le> sum_list ns" using ns(2) by (intro sum_list_nonneg) simp
  have sl: "sum_list xs = of_int (sum_list ns)" using ns(1) by (simp add: of_int_sum_list_rat)
  have "(of_int (sum_list ns) :: rat) \<le> of_int (2 ^ 53)" using ns(3) by (simp only: of_int_le_iff)
  then show ?thesis using s0 unfolding sl by (simp add: whole_hours_def whole_def)
qed

lemma whole_tail:
  assumes P: "whole_hours P" and C: "whole C" and W: "whole_schedule prefix"
  shows "\<exists>tail. autoSchedule (dsub P (js_sum prefix)) C = Some tail
           \<and> whole_schedule (prefix @ tail)
           \<and> sum_list tail = (if 0 < P - sum_list prefix \<and> 0 < C then P - sum_list prefix else 0)
           \<and> (\<not> (0 < P - sum_list prefix \<and> 0 < C) \<longrightarrow> tail = [])"
proof (cases "0 < P - sum_list prefix \<and> 0 < C")
  case True
  have r: "dsub P (js_sum prefix) = P - sum_list prefix" using P W by (rule remaining_whole(1))
  have wr: "whole_hours (P - sum_list prefix)" using remaining_whole(2) [OF P W] True by simp
  obtain tail where t: "autoSchedule (P - sum_list prefix) C = Some tail"
      "\<forall>h \<in> set tail. whole h \<and> 0 \<le> h" "sum_list tail = P - sum_list prefix"
    using autoSchedule_whole_facts [OF wr C] True by blast
  have "whole_schedule (prefix @ tail)"
    using W t(2,3) P by (auto simp: whole_schedule_def whole_hours_def)
  then show ?thesis using t True r by auto
next
  case False
  have r: "dsub P (js_sum prefix) = P - sum_list prefix" using P W by (rule remaining_whole(1))
  have "autoSchedule (dsub P (js_sum prefix)) C = Some []"
    using False unfolding r by (auto simp: autoSchedule_def)
  then show ?thesis using False W by auto
qed

section \<open>Initial generation: results\<close>

text \<open>
  C1, as stated, fails on hours that are not whole numbers, because line 62 subtracts
  doubles. With 0.7 pending hours and 0.1 hours a week the loop runs eight times, while
  ceil(0.7 / 0.1) is 7 (for the exact quotient and for the quotient of doubles); with 1
  pending hour and 0.3 hours a week the four entries add up to 0.9999999999999999 in the
  left-to-right sum of doubles, and to less than 1 exactly.
\<close>

theorem autoSchedule_fraction_counterexample:
  "0 \<le> fl (7 / 10) \<and> 0 < fl (1 / 10)
   \<and> map_option length (autoSchedule (fl (7 / 10)) (fl (1 / 10))) = Some 8
   \<and> \<lceil>fl (7 / 10) / fl (1 / 10)\<rceil> = 7
   \<and> \<lceil>ddiv (fl (7 / 10)) (fl (1 / 10))\<rceil> = 7
   \<and> 0 < fl (3 / 10)
   \<and> map_option js_sum (autoSchedule 1 (fl (3 / 10))) = Some (9007199254740991 / 9007199254740992)
   \<and> map_option sum_list (autoSchedule 1 (fl (3 / 10)))
        = Some (18014398509481983 / 18014398509481984)"
  by code_simp

text \<open>
  C1 (amended). For whole numbers of hours (pending from 0 to \<open>2 ^ 53\<close>, weekly capacity
  a positive whole number) the initial generation returns a schedule whose sum, taken
  left to right in doubles or exactly, is the pending hours and whose length is
  ceil(pending / capacity) (so empty for pending 0); for all numbers, whenever
  pending \<le> 0 or capacity \<le> 0 (capacity 0 with positive pending included) it returns
  the empty schedule.
\<close>

theorem autoSchedule_sum_length:
  "(whole_hours pending \<and> whole capacity \<and> 0 < capacity \<longrightarrow>
      (\<exists>schedule. autoSchedule pending capacity = Some schedule
          \<and> js_sum schedule = pending \<and> sum_list schedule = pending
          \<and> int (length schedule) = \<lceil>pending / capacity\<rceil>
          \<and> (pending = 0 \<longrightarrow> schedule = [])))
   \<and> (pending \<le> 0 \<or> capacity \<le> 0 \<longrightarrow> autoSchedule pending capacity = Some [])"
proof (intro conjI impI)
  assume h: "whole_hours pending \<and> whole capacity \<and> 0 < capacity"
  then obtain schedule where s: "autoSchedule pending capacity = Some schedule"
      "\<forall>h \<in> set schedule. whole h \<and> 0 \<le> h" "sum_list schedule = pending"
      "int (length schedule) = \<lceil>pending / capacity\<rceil>"
    using autoSchedule_whole_facts [of pending capacity] by blast
  have "whole_schedule schedule" using s(2,3) h by (simp add: whole_schedule_def whole_hours_def)
  then have "js_sum schedule = pending" using s(3) by (simp add: js_sum_whole)
  moreover have "pending = 0 \<longrightarrow> schedule = []" using s(4) by auto
  ultimately show "\<exists>schedule. autoSchedule pending capacity = Some schedule
          \<and> js_sum schedule = pending \<and> sum_list schedule = pending
          \<and> int (length schedule) = \<lceil>pending / capacity\<rceil>
          \<and> (pending = 0 \<longrightarrow> schedule = [])"
    using s by blast
next
  assume "pending \<le> 0 \<or> capacity \<le> 0"
  then show "autoSchedule pending capacity = Some []"
    by (auto simp: autoSchedule_def)
qed

theorem autoSchedule_sum_length_witness:
  "whole_hours 100 \<and> whole 40 \<and> (0::double) < 40
   \<and> autoSchedule 100 40 = Some [40, 40, 20] \<and> js_sum [40, 40, 20] = 100
   \<and> sum_list [40, 40, 20 :: double] = 100
   \<and> int (length [40, 40, 20 :: double]) = \<lceil>100 / (40 :: double)\<rceil>
   \<and> whole_hours 0 \<and> autoSchedule 0 40 = Some [] \<and> autoSchedule 100 0 = Some []"
proof -
  have w: "whole_hours 100" "whole 40" "whole_hours 0"
    by (simp_all add: whole_hours_def whole_def)
  have a: "autoSchedule 100 40 = Some [40, 40, 20]" by code_simp
  show ?thesis
    using autoSchedule_sum_length [of 100 40] autoSchedule_sum_length [of 0 40]
      autoSchedule_sum_length [of 100 0] a w by simp
qed

section \<open>Editing one week: results\<close>

text \<open>
  C2. On a project that is found, with the clamped value max 0 parsedValue (0 for input
  that is not a number), prefix the old schedule extended with zeros through the edited
  week, overwritten there with the clamped value and cut after that week, and
  remaining = originalPending - sum(prefix) in doubles: when remaining > 0 and the weekly
  capacity is positive, the edit returns exactly when the initial generation from
  remaining does, and the project's new schedule is the prefix followed by that
  generation's result, trailing zeros removed; when remaining \<le> 0 the edit returns and
  the new schedule is the prefix alone, trailing zeros removed. On whole hours the edit
  returns. For pending 100, capacity 40 and schedule [40,40,20], setting week 0 to 10
  gives [10,40,40,10], of sum 100.
\<close>

theorem applyEdit_schedule:
  "(find (\<lambda>p. wi_id p = projectId) devProjects = Some project \<longrightarrow>
     (let hours = (case parseInt10 hoursStr of None \<Rightarrow> 0 | Some parsedValue \<Rightarrow> max 0 parsedValue);
          oldSchedule = (case map_get plan projectId of None \<Rightarrow> [] | Some s \<Rightarrow> s);
          prefix = edited_prefix oldSchedule weekIndex hours;
          originalPending = or_zero (Custom_Hspendientes project);
          remaining = dsub originalPending (js_sum prefix);
          weeklyCapacity = or_zero (Custom_Cargasemanal project)
      in (remaining > 0 \<and> weeklyCapacity > 0 \<longrightarrow>
            map_option (\<lambda>plan'. map_get plan' projectId)
                (handleHoursChange devProjects plan projectId weekIndex hoursStr)
              = map_option (\<lambda>tail. Some (strip_trailing_zeros (prefix @ tail)))
                  (autoSchedule remaining weeklyCapacity))
       \<and> (remaining \<le> 0 \<longrightarrow>
            (\<exists>plan'. handleHoursChange devProjects plan projectId weekIndex hoursStr = Some plan'
               \<and> map_get plan' projectId = Some (strip_trailing_zeros prefix)))
       \<and> (whole_hours originalPending \<and> whole weeklyCapacity \<and> whole_schedule prefix \<longrightarrow>
            (\<exists>plan'. handleHoursChange devProjects plan projectId weekIndex hoursStr = Some plan'))))
   \<and> autoPlan [project_100_40] = Some [(1, [40, 40, 20])]
   \<and> handleHoursChange [project_100_40] [(1, [40, 40, 20])] 1 0 (utf16 ''10'')
        = Some [(1, [10, 40, 40, 10])]
   \<and> js_sum [10, 40, 40, 10] = 100"
proof (intro conjI impI)
  assume f: "find (\<lambda>p. wi_id p = projectId) devProjects = Some project"
  show "let hours = (case parseInt10 hoursStr of None \<Rightarrow> 0 | Some parsedValue \<Rightarrow> max 0 parsedValue);
          oldSchedule = (case map_get plan projectId of None \<Rightarrow> [] | Some s \<Rightarrow> s);
          prefix = edited_prefix oldSchedule weekIndex hours;
          originalPending = or_zero (Custom_Hspendientes project);
          remaining = dsub originalPending (js_sum prefix);
          weeklyCapacity = or_zero (Custom_Cargasemanal project)
      in (remaining > 0 \<and> weeklyCapacity > 0 \<longrightarrow>
            map_option (\<lambda>plan'. map_get plan' projectId)
                (handleHoursChange devProjects plan projectId weekIndex hoursStr)
              = map_option (\<lambda>tail. Some (strip_trailing_zeros (prefix @ tail)))
                  (autoSchedule remaining weeklyCapacity))
       \<and> (remaining \<le> 0 \<longrightarrow>
            (\<exists>plan'. handleHoursChange devProjects plan projectId weekIndex hoursStr = Some plan'
               \<and> map_get plan' projectId = Some (strip_trailing_zeros prefix)))
       \<and> (whole_hours originalPending \<and> whole weeklyCapacity \<and> whole_schedule prefix \<longrightarrow>
            (\<exists>plan'. handleHoursChange devProjects plan projectId weekIndex hoursStr = Some plan'))"
    unfolding Let_def handleHoursChange_found [OF f]
  proof (intro conjI impI)
    show "map_option (\<lambda>plan'. map_get plan' projectId)
            (map_option (\<lambda>tail. map_set plan projectId (strip_trailing_zeros (pre @ tail))) X)
          = map_option (\<lambda>tail. Some (strip_trailing_zeros (pre @ tail))) X" for pre X
      by (simp add: option.map_comp comp_def map_get_map_set)
  next
    let ?pre = "edited_prefix (case map_get plan projectId of None \<Rightarrow> [] | Some s \<Rightarrow> s) weekIndex
                  (case parseInt10 hoursStr of None \<Rightarrow> 0 | Some parsedValue \<Rightarrow> max 0 parsedValue)"
    assume "dsub (or_zero (Custom_Hspendientes project)) (js_sum ?pre) \<le> 0"
    then show "\<exists>plan'. map_option (\<lambda>tail. map_set plan projectId (strip_trailing_zeros (?pre @ tail)))
            (autoSchedule (dsub (or_zero (Custom_Hspendientes project)) (js_sum ?pre))
               (or_zero (Custom_Cargasemanal project))) = Some plan'
          \<and> map_get plan' projectId = Some (strip_trailing_zeros ?pre)"
      by (simp add: autoSchedule_def map_get_map_set)
  next
    let ?pre = "edited_prefix (case map_get plan projectId of None \<Rightarrow> [] | Some s \<Rightarrow> s) weekIndex
                  (case parseInt10 hoursStr of None \<Rightarrow> 0 | Some parsedValue \<Rightarrow> max 0 parsedValue)"
    assume "whole_hours (or_zero (Custom_Hspendientes project))
        \<and> whole (or_zero (Custom_Cargasemanal project)) \<and> whole_schedule ?pre"
    then obtain tail where "autoSchedule (dsub (or_zero (Custom_Hspendientes project)) (js_sum ?pre))
               (or_zero (Custom_Cargasemanal project)) = Some tail"
      using whole_tail [of "or_zero (Custom_Hspendientes project)"
          "or_zero (Custom_Cargasemanal project)" ?pre] by blast
    then show "\<exists>plan'. map_option (\<lambda>tail. map_set plan projectId (strip_trailing_zeros (?pre @ tail)))
            (autoSchedule (dsub (or_zero (Custom_Hspendientes project)) (js_sum ?pre))
               (or_zero (Custom_Cargasemanal project))) = Some plan'"
      by simp
  qed
next
  show "autoPlan [project_100_40] = Some [(1, [40, 40, 20])]" by code_simp
next
  show "handleHoursChange [project_100_40] [(1, [40, 40, 20])] 1 0 (utf16 ''10'')
          = Some [(1, [10, 40, 40, 10])]"
    by code_simp
next
  show "js_sum [10, 40, 40, 10] = 100" by code_simp
qed


theorem applyEdit_schedule_witness:
  "find (\<lambda>p. wi_id p = 1) [project_100_40] = Some project_100_40
   \<and> dsub 100 (js_sum (edited_prefix [40, 40, 20] 0 10)) > 0
   \<and> or_zero (Custom_Cargasemanal project_100_40) > 0
   \<and> map_option (\<lambda>plan'. map_get plan' 1)
         (handleHoursChange [project_100_40] [(1, [40, 40, 20])] 1 0 (utf16 ''10''))
        = Some (Some [10, 40, 40, 10])
   \<and> dsub 100 (js_sum (edited_prefix [40, 40, 20] 0 150)) \<le> 0
   \<and> (\<exists>plan'. handleHoursChange [project_100_40] [(1, [40, 40, 20])] 1 0 (utf16 ''150'') = Some plan'
         \<and> map_get plan' 1 = Some [150])
   \<and> whole_hours 100 \<and> whole 40 \<and> whole_schedule (edited_prefix [40, 40, 20] 0 150)
   \<and> (\<exists>plan'. handleHoursChange [project_100_40] [(1, [40, 40, 20])] 1 0 (utf16 ''150'') = Some plan')"
proof -
  have f: "find (\<lambda>p. wi_id p = 1) [project_100_40] = Some project_100_40"
    by (simp add: project_100_40_def)
  have g: "map_get [(1::int, [40, 40, 20::double])] 1 = Some [40, 40, 20]"
    by (simp add: map_get_def)
  have v150: "parseInt10 (utf16 ''150'') = Some 150" by code_simp
  have v10: "parseInt10 (utf16 ''10'') = Some 10" by code_simp
  have p150: "edited_prefix [40, 40, 20] 0 150 = [150]" by (simp add: edited_prefix_def)
  have p10: "edited_prefix [40, 40, 20] 0 10 = [10]" by (simp add: edited_prefix_def)
  have pend: "or_zero (Custom_Hspendientes project_100_40) = 100"
    and load: "or_zero (Custom_Cargasemanal project_100_40) = 40"
    by (simp_all add: project_100_40_def or_zero_def)
  have r10: "dsub 100 (js_sum [10]) = 90" by code_simp
  have r150: "dsub 100 (js_sum [150]) = - 50" by code_simp
  have t: "autoSchedule 90 40 = Some [40, 40, 10]" by code_simp
  have s1: "strip_trailing_zeros [150] = [150]"
    and s2: "strip_trailing_zeros [10, 40, 40, 10] = [10, 40, 40, 10]"
    by (simp_all add: strip_trailing_zeros_def)
  have w: "whole_hours 100" "whole 40" "whole_schedule [150]"
    by (simp_all add: whole_hours_def whole_def whole_schedule_def)
  have a: "map_option (\<lambda>plan'. map_get plan' 1)
         (handleHoursChange [project_100_40] [(1, [40, 40, 20])] 1 0 (utf16 ''10''))
        = Some (Some [10, 40, 40, 10])"
    using applyEdit_schedule [of 1 "[project_100_40]" project_100_40 "utf16 ''10''" "[(1, [40, 40, 20])]" 0]
      f g v10 p10 pend load r10 t s2 by (simp add: Let_def map_get_def)
  have b: "\<exists>plan'. handleHoursChange [project_100_40] [(1, [40, 40, 20])] 1 0 (utf16 ''150'') = Some plan'
         \<and> map_get plan' 1 = Some [150]"
    using applyEdit_schedule [of 1 "[project_100_40]" project_100_40 "utf16 ''150''" "[(1, [40, 40, 20])]" 0]
      f g v150 p150 pend load r150 s1 by (simp add: Let_def map_get_def)
  have c: "\<exists>plan'. handleHoursChange [project_100_40] [(1, [40, 40, 20])] 1 0 (utf16 ''150'') = Some plan'"
    using applyEdit_schedule [of 1 "[project_100_40]" project_100_40 "utf16 ''150''" "[(1, [40, 40, 20])]" 0]
      f g v150 p150 pend load w by (simp add: Let_def)
  show ?thesis using f a b c w p10 p150 r10 r150 load by simp
qed

text \<open>
  C3, as stated, fails in two ways. When the weekly capacity is zero and hours remain, the
  guard of line 114 leaves the tail empty, and the sum stays at the hours planned through
  the edit: pending 100, capacity 0, week 0 set to 10 gives [10]. And on hours that are
  not whole numbers the subtractions of line 118 round: pending 1, capacity 0.3, week 0
  set to 0 gives a schedule whose sum is 0.9999999999999999, not max(0, 1) = 1.
\<close>

theorem applyEdit_sum_counterexample:
  "autoPlan [project_100_0] = Some [(1, [])]
   \<and> handleHoursChange [project_100_0] [(1, [])] 1 0 (utf16 ''10'') = Some [(1, [10])]
   \<and> js_sum (edited_prefix [] 0 10) = 10
   \<and> or_zero (Custom_Hspendientes project_100_0) = 100
   \<and> js_sum [10] = 10
   \<and> js_sum [10] \<noteq> dadd 10 (max 0 (dsub 100 10))
   \<and> js_sum [10] \<noteq> max 10 100
   \<and> autoPlan [project_fraction] = Some [(3, schedule_fraction)]
   \<and> handleHoursChange [project_fraction] [(3, schedule_fraction)] 3 0 (utf16 ''0'')
        = Some [(3, 0 # schedule_fraction)]
   \<and> js_sum (edited_prefix schedule_fraction 0 0) = 0
   \<and> or_zero (Custom_Hspendientes project_fraction) = 1
   \<and> js_sum (0 # schedule_fraction) = 9007199254740991 / 9007199254740992
   \<and> js_sum (0 # schedule_fraction) \<noteq> dadd 0 (max 0 (dsub 1 0))
   \<and> js_sum (0 # schedule_fraction) \<noteq> max 0 1"
  by code_simp

text \<open>
  C3 (amended). After an edit on a project that is found, with plannedThroughEdit the sum
  of the schedule through the edited week and remaining = originalPending -
  plannedThroughEdit, and all hours whole numbers (the pending hours from 0 to \<open>2 ^ 53\<close>,
  the weekly capacity whole, the schedule through the edited week of non-negative whole
  entries adding up to at most \<open>2 ^ 53\<close>): the edit returns, the final schedule is the
  schedule through the edited week followed by a tail, trailing zeros removed; when the
  weekly capacity is positive or remaining \<le> 0, the sum of the final schedule is
  plannedThroughEdit + max 0 remaining, which is max plannedThroughEdit originalPending;
  when the weekly capacity is not positive and remaining > 0, the tail is empty and the
  sum is plannedThroughEdit.
\<close>

theorem applyEdit_sum:
  "find (\<lambda>p. wi_id p = projectId) devProjects = Some project \<Longrightarrow>
   (let hours = (case parseInt10 hoursStr of None \<Rightarrow> 0 | Some parsedValue \<Rightarrow> max 0 parsedValue);
        oldSchedule = (case map_get plan projectId of None \<Rightarrow> [] | Some s \<Rightarrow> s);
        prefix = edited_prefix oldSchedule weekIndex hours;
        plannedThroughEdit = js_sum prefix;
        originalPending = or_zero (Custom_Hspendientes project);
        remaining = dsub originalPending plannedThroughEdit;
        weeklyCapacity = or_zero (Custom_Cargasemanal project)
    in whole_hours originalPending \<and> whole weeklyCapacity \<and> whole_schedule prefix \<longrightarrow>
       (\<exists>plan' finalSchedule tail.
         handleHoursChange devProjects plan projectId weekIndex hoursStr = Some plan'
         \<and> map_get plan' projectId = Some finalSchedule
         \<and> finalSchedule = strip_trailing_zeros (prefix @ tail)
         \<and> (weeklyCapacity > 0 \<or> remaining \<le> 0 \<longrightarrow>
               js_sum finalSchedule = dadd plannedThroughEdit (max 0 remaining)
               \<and> js_sum finalSchedule = max plannedThroughEdit originalPending
               \<and> sum_list finalSchedule = max plannedThroughEdit originalPending)
         \<and> (weeklyCapacity \<le> 0 \<and> remaining > 0 \<longrightarrow>
               tail = [] \<and> js_sum finalSchedule = plannedThroughEdit)))"
proof -
  assume f: "find (\<lambda>p. wi_id p = projectId) devProjects = Some project"
  define pre where "pre = edited_prefix (case map_get plan projectId of None \<Rightarrow> [] | Some s \<Rightarrow> s)
      weekIndex (case parseInt10 hoursStr of None \<Rightarrow> 0 | Some parsedValue \<Rightarrow> max 0 parsedValue)"
  define P where "P = or_zero (Custom_Hspendientes project)"
  define C where "C = or_zero (Custom_Cargasemanal project)"
  have main: "\<exists>plan' finalSchedule tail.
         handleHoursChange devProjects plan projectId weekIndex hoursStr = Some plan'
         \<and> map_get plan' projectId = Some finalSchedule
         \<and> finalSchedule = strip_trailing_zeros (pre @ tail)
         \<and> (C > 0 \<or> dsub P (js_sum pre) \<le> 0 \<longrightarrow>
               js_sum finalSchedule = dadd (js_sum pre) (max 0 (dsub P (js_sum pre)))
               \<and> js_sum finalSchedule = max (js_sum pre) P
               \<and> sum_list finalSchedule = max (js_sum pre) P)
         \<and> (C \<le> 0 \<and> dsub P (js_sum pre) > 0 \<longrightarrow>
               tail = [] \<and> js_sum finalSchedule = js_sum pre)"
    if w: "whole_hours P" "whole C" "whole_schedule pre"
  proof -
    obtain tail where t: "autoSchedule (dsub P (js_sum pre)) C = Some tail"
        "whole_schedule (pre @ tail)"
        "sum_list tail = (if 0 < P - sum_list pre \<and> 0 < C then P - sum_list pre else 0)"
        "\<not> (0 < P - sum_list pre \<and> 0 < C) \<longrightarrow> tail = []"
      using whole_tail [OF w] by blast
    let ?final = "strip_trailing_zeros (pre @ tail)"
    have h: "handleHoursChange devProjects plan projectId weekIndex hoursStr
               = Some (map_set plan projectId ?final)"
      unfolding handleHoursChange_found [OF f] using t(1) by (simp add: pre_def P_def C_def)
    have S: "js_sum pre = sum_list pre" using w(3) by (rule js_sum_whole)
    have R: "dsub P (js_sum pre) = P - sum_list pre" using w(1,3) by (rule remaining_whole(1))
    have F: "js_sum ?final = sum_list pre + sum_list tail"
      using js_sum_whole [OF whole_schedule_strip [OF t(2)]] by (simp add: sum_list_strip)
    have F': "sum_list ?final = sum_list pre + sum_list tail" by (simp add: sum_list_strip)
    have wm: "whole_hours (max (sum_list pre) P)"
      using whole_hours_sum [OF w(3)] w(1) by (simp add: max_def)
    have a: "js_sum ?final = dadd (js_sum pre) (max 0 (dsub P (js_sum pre)))
               \<and> js_sum ?final = max (js_sum pre) P \<and> sum_list ?final = max (js_sum pre) P"
      if c: "C > 0 \<or> dsub P (js_sum pre) \<le> 0"
    proof -
      have st: "sum_list tail = max 0 (P - sum_list pre)"
        using c t(3) unfolding R by (auto simp: max_def)
      have e: "sum_list pre + max 0 (P - sum_list pre) = max (sum_list pre) P"
        by (simp add: max_def)
      have "dadd (sum_list pre) (max 0 (P - sum_list pre)) = max (sum_list pre) P"
        unfolding dadd_def e using wm by (rule fl_whole_hours)
      moreover have "dsub P (sum_list pre) = P - sum_list pre" using R S by simp
      ultimately show ?thesis unfolding F F' S st e by simp
    qed
    have b: "tail = [] \<and> js_sum ?final = js_sum pre" if c: "C \<le> 0 \<and> dsub P (js_sum pre) > 0"
    proof -
      have "tail = []" using c t(4) by auto
      then show ?thesis using F S by simp
    qed
    have m: "map_get (map_set plan projectId ?final) projectId = Some ?final"
      by (simp add: map_get_map_set)
    from h m a b show ?thesis by blast
  qed
  show ?thesis
    unfolding Let_def using main by (simp only: pre_def P_def C_def) blast
qed


theorem applyEdit_sum_witness:
  "find (\<lambda>p. wi_id p = 1) [project_100_40] = Some project_100_40
   \<and> whole_hours 100 \<and> whole 40 \<and> whole_schedule (edited_prefix [40, 40, 20] 0 10)
   \<and> (0 :: double) < 40
   \<and> (\<exists>plan' finalSchedule.
         handleHoursChange [project_100_40] [(1, [40, 40, 20])] 1 0 (utf16 ''10'') = Some plan'
         \<and> map_get plan' 1 = Some finalSchedule
         \<and> js_sum finalSchedule = dadd 10 (max 0 90) \<and> js_sum finalSchedule = max 10 100)
   \<and> find (\<lambda>p. wi_id p = 1) [project_100_0] = Some project_100_0
   \<and> whole 0 \<and> whole_schedule (edited_prefix [] 0 10)
   \<and> (0 :: double) \<le> 0 \<and> dsub 100 (js_sum (edited_prefix [] 0 10)) > 0
   \<and> (\<exists>plan' finalSchedule.
         handleHoursChange [project_100_0] [(1, [])] 1 0 (utf16 ''10'') = Some plan'
         \<and> map_get plan' 1 = Some finalSchedule
         \<and> finalSchedule = strip_trailing_zeros (edited_prefix [] 0 10 @ [])
         \<and> js_sum finalSchedule = 10)"
proof -
  have f0: "find (\<lambda>p. wi_id p = 1) [project_100_0] = Some project_100_0"
    by (simp add: project_100_0_def)
  have g0: "map_get [(1::int, [] :: double list)] 1 = Some []"
    by (simp add: map_get_def)
  have p0: "edited_prefix [] 0 10 = [10]" by (simp add: edited_prefix_def)
  have pend0: "or_zero (Custom_Hspendientes project_100_0) = 100"
    and load0: "or_zero (Custom_Cargasemanal project_100_0) = 0"
    by (simp_all add: project_100_0_def or_zero_def)
  have f: "find (\<lambda>p. wi_id p = 1) [project_100_40] = Some project_100_40"
    by (simp add: project_100_40_def)
  have g: "map_get [(1::int, [40, 40, 20::double])] 1 = Some [40, 40, 20]"
    by (simp add: map_get_def)
  have v10: "parseInt10 (utf16 ''10'') = Some 10" by code_simp
  have p10: "edited_prefix [40, 40, 20] 0 10 = [10]" by (simp add: edited_prefix_def)
  have pend: "or_zero (Custom_Hspendientes project_100_40) = 100"
    and load: "or_zero (Custom_Cargasemanal project_100_40) = 40"
    by (simp_all add: project_100_40_def or_zero_def)
  have s10: "js_sum [10] = 10" by code_simp
  have r10: "dsub 100 10 = 90" by code_simp
  have w: "whole_hours 100" "whole 40" "whole 0" "whole_schedule [10]"
    by (simp_all add: whole_hours_def whole_def whole_schedule_def)
  have a: "\<exists>plan' finalSchedule.
         handleHoursChange [project_100_40] [(1, [40, 40, 20])] 1 0 (utf16 ''10'') = Some plan'
         \<and> map_get plan' 1 = Some finalSchedule
         \<and> js_sum finalSchedule = dadd 10 (max 0 90) \<and> js_sum finalSchedule = max 10 100"
    using applyEdit_sum [OF f, of "utf16 ''10''" "[(1, [40, 40, 20])]" 0] g v10 p10 pend load s10 r10 w
    by (auto simp: Let_def)
  have b: "\<exists>plan' finalSchedule.
         handleHoursChange [project_100_0] [(1, [])] 1 0 (utf16 ''10'') = Some plan'
         \<and> map_get plan' 1 = Some finalSchedule
         \<and> finalSchedule = strip_trailing_zeros (edited_prefix [] 0 10 @ [])
         \<and> js_sum finalSchedule = 10"
    using applyEdit_sum [OF f0, of "utf16 ''10''" "[(1, [])]" 0] g0 v10 p0 pend0 load0 s10 r10 w
    by (auto simp: Let_def)
  show ?thesis using f f0 a b w p10 p0 s10 r10 by simp
qed




text \<open>
  C9. Every plan an edit returns holds, for every project other than the edited one, the
  schedule that project had before the edit. (An edit of a project that is not found
  returns the plan as it is; an edit on whole hours returns.)
\<close>

theorem applyEdit_frame:
  "(\<forall>plan' other. handleHoursChange devProjects plan projectId weekIndex hoursStr = Some plan'
        \<and> other \<noteq> projectId \<longrightarrow> map_get plan' other = map_get plan other)
   \<and> (find (\<lambda>p. wi_id p = projectId) devProjects = None \<longrightarrow>
        handleHoursChange devProjects plan projectId weekIndex hoursStr = Some plan)
   \<and> (\<forall>project. find (\<lambda>p. wi_id p = projectId) devProjects = Some project
        \<and> whole_hours (or_zero (Custom_Hspendientes project))
        \<and> whole (or_zero (Custom_Cargasemanal project))
        \<and> whole_schedule
             (edited_prefix (case map_get plan projectId of None \<Rightarrow> [] | Some s \<Rightarrow> s) weekIndex
                (case parseInt10 hoursStr of None \<Rightarrow> 0 | Some parsedValue \<Rightarrow> max 0 parsedValue))
        \<longrightarrow> (\<exists>plan'. handleHoursChange devProjects plan projectId weekIndex hoursStr = Some plan'))"
proof (intro conjI impI allI)
  fix plan' other
  assume h: "handleHoursChange devProjects plan projectId weekIndex hoursStr = Some plan'
        \<and> other \<noteq> projectId"
  show "map_get plan' other = map_get plan other"
  proof (cases "find (\<lambda>p. wi_id p = projectId) devProjects")
    case None
    then show ?thesis using h by (simp add: handleHoursChange_not_found)
  next
    case (Some project)
    then show ?thesis using h
      unfolding handleHoursChange_found [OF Some] by (auto simp: map_get_map_set)
  qed
next
  assume "find (\<lambda>p. wi_id p = projectId) devProjects = None"
  then show "handleHoursChange devProjects plan projectId weekIndex hoursStr = Some plan"
    by (rule handleHoursChange_not_found)
next
  fix project
  let ?v = "case parseInt10 hoursStr of None \<Rightarrow> 0 | Some parsedValue \<Rightarrow> max 0 parsedValue"
  let ?pre = "edited_prefix (case map_get plan projectId of None \<Rightarrow> [] | Some s \<Rightarrow> s) weekIndex ?v"
  assume a: "find (\<lambda>p. wi_id p = projectId) devProjects = Some project
        \<and> whole_hours (or_zero (Custom_Hspendientes project))
        \<and> whole (or_zero (Custom_Cargasemanal project)) \<and> whole_schedule ?pre"
  then have f: "find (\<lambda>p. wi_id p = projectId) devProjects = Some project" by simp
  from a obtain tail where "autoSchedule (dsub (or_zero (Custom_Hspendientes project)) (js_sum ?pre))
               (or_zero (Custom_Cargasemanal project)) = Some tail"
    using whole_tail [of "or_zero (Custom_Hspendientes project)"
        "or_zero (Custom_Cargasemanal project)" ?pre] by blast
  then show "\<exists>plan'. handleHoursChange devProjects plan projectId weekIndex hoursStr = Some plan'"
    unfolding handleHoursChange_found [OF f] by simp
qed

theorem applyEdit_frame_witness:
  "handleHoursChange [project_100_40, project_2] [(1, [40, 40, 20]), (2, [30])] 1 0 (utf16 ''10'')
      = Some [(1, [10, 40, 40, 10]), (2, [30])]
   \<and> (2::int) \<noteq> 1
   \<and> map_get [(1, [10, 40, 40, 10]), (2::int, [30::double])] 2
        = map_get [(1::int, [40, 40, 20::double]), (2, [30])] 2
   \<and> find (\<lambda>p. wi_id p = 1) [project_100_40, project_2] = Some project_100_40
   \<and> whole_hours 100 \<and> whole 40 \<and> whole_schedule (edited_prefix [40, 40, 20] 0 10)
   \<and> find (\<lambda>p. wi_id p = 7) [project_100_40, project_2] = None
   \<and> handleHoursChange [project_100_40, project_2] [(1, [40, 40, 20]), (2, [30])] 7 0 (utf16 ''10'')
      = Some [(1, [40, 40, 20]), (2, [30])]"
proof -
  have h: "handleHoursChange [project_100_40, project_2] [(1, [40, 40, 20]), (2, [30])] 1 0 (utf16 ''10'')
      = Some [(1, [10, 40, 40, 10]), (2, [30])]"
    by code_simp
  have f: "find (\<lambda>p. wi_id p = 1) [project_100_40, project_2] = Some project_100_40"
    "find (\<lambda>p. wi_id p = 7) [project_100_40, project_2] = None"
    by (simp_all add: project_100_40_def project_2_def)
  have w: "whole_hours 100" "whole 40" "whole_schedule (edited_prefix [40, 40, 20] 0 10)"
    by (simp_all add: whole_hours_def whole_def whole_schedule_def edited_prefix_def)
  show ?thesis
    using applyEdit_frame [of "[project_100_40, project_2]" "[(1, [40, 40, 20]), (2, [30])]" 1 0 "utf16 ''10''"]
      applyEdit_frame [of "[project_100_40, project_2]" "[(1, [40, 40, 20]), (2, [30])]" 7 0 "utf16 ''10''"]
      h f w by (simp add: map_get_def)
qed

section \<open>Calendar projection: auxiliary facts\<close>





























section \<open>Calendar projection: results\<close>




section \<open>Hierarchy resolver: results\<close>

text \<open>
  \<open>findRootPbi\<close> computes the walk of the specification: from a memo of earlier results
  it returns exactly what the walk gives, and the memo it returns is again one of results.
\<close>

lemma root_of_deterministic: "root_of byId i r \<Longrightarrow> root_of byId i r' \<Longrightarrow> r = r'"
proof (induction arbitrary: r' rule: root_of.induct)
  case (absent i)
  then show ?case by (auto elim: root_of.cases)
next
  case (is_root i item)
  from is_root.prems is_root.hyps show ?case by (auto elim: root_of.cases)
next
  case (orphan i item)
  from orphan.prems orphan.hyps show ?case by (auto elim: root_of.cases)
next
  case (parent i item p r)
  from parent.prems show ?case
  proof (cases rule: root_of.cases)
    case (parent item' p')
    then have "p' = p" using parent.hyps by simp
    then show ?thesis using parent.IH parent(5) by simp
  qed (use parent.hyps in auto)
qed

lemma memo_ok_empty: "memo_ok byId []"
  by (simp add: memo_ok_def map_get_def)

lemma memo_ok_set: "memo_ok byId memo \<Longrightarrow> root_of byId i r \<Longrightarrow> memo_ok byId (map_set memo i r)"
  by (simp add: memo_ok_def map_get_map_set)

lemma findRootPbi_sound_aux:
  assumes "findRootPbi byId memo i = Some y"
  shows "memo_ok byId memo \<longrightarrow> root_of byId i (fst y) \<and> memo_ok byId (snd y)"
  using assms
proof (induct rule: findRootPbi.raw_induct [rotated 1, consumes 1])
  case (1 f byId memo i y)
  show ?case
  proof
    assume ok: "memo_ok byId memo"
    show "root_of byId i (fst y) \<and> memo_ok byId (snd y)"
    proof (cases "map_get memo i")
      case (Some m)
      then have "y = (m, memo)" using 1(2) by simp
      then show ?thesis using ok Some by (simp add: memo_ok_def)
    next
      case None
      note memo_none = None
      show ?thesis
      proof (cases "map_get byId i")
        case None
        then have "y = (None, map_set memo i None)" using 1(2) memo_none by simp
        then show ?thesis using None ok by (simp add: root_of.absent memo_ok_set)
      next
        case (Some item)
        show ?thesis
        proof (cases "System_WorkItemType item = ''Product Backlog Item''")
          case True
          then have "y = (Some item, map_set memo i (Some item))"
            using 1(2) memo_none Some by simp
          then show ?thesis using Some True ok by (simp add: root_of.is_root memo_ok_set)
        next
          case False
          show ?thesis
          proof (cases "System_Parent item = None \<or> System_Parent item = Some 0")
            case True
            then have "y = (None, map_set memo i None)"
              using 1(2) memo_none Some False by (auto split: option.splits)
            moreover have "root_of byId i None" using Some False True by (rule root_of.orphan)
            ultimately show ?thesis using ok by (simp add: memo_ok_set)
          next
            case np: False
            then obtain p where p: "System_Parent item = Some p" "p \<noteq> 0" by auto
            from 1(2) memo_none Some False p
            obtain r m' where rec: "f byId memo p = Some (r, m')"
              and y: "y = (r, map_set m' i r)"
              by (auto split: Option.bind_splits)
            from 1(1) [OF rec] ok have "root_of byId p r" and m': "memo_ok byId m'" by simp_all
            then have "root_of byId i r" using Some False p by (auto intro: root_of.parent)
            then show ?thesis using y m' by (simp add: memo_ok_set)
          qed
        qed
      qed
    qed
  qed
qed

lemma findRootPbi_sound:
  "findRootPbi byId memo i = Some (r, memo') \<Longrightarrow> memo_ok byId memo \<Longrightarrow>
   root_of byId i r \<and> memo_ok byId memo'"
  using findRootPbi_sound_aux [of byId memo i "(r, memo')"] by simp

lemma findRootPbi_complete:
  "root_of byId i r \<Longrightarrow> memo_ok byId memo \<Longrightarrow>
   \<exists>memo'. findRootPbi byId memo i = Some (r, memo')"
proof (induction arbitrary: memo rule: root_of.induct)
  case (absent i)
  show ?case
  proof (cases "map_get memo i")
    case None
    then show ?thesis using absent by (subst findRootPbi.simps) simp
  next
    case (Some m)
    then have "m = None"
      using absent.prems root_of.absent [OF absent.hyps] root_of_deterministic
      unfolding memo_ok_def by blast
    then show ?thesis using Some by (subst findRootPbi.simps) simp
  qed
next
  case (is_root i item)
  show ?case
  proof (cases "map_get memo i")
    case None
    then show ?thesis using is_root by (subst findRootPbi.simps) simp
  next
    case (Some m)
    then have "m = Some item"
      using is_root.prems root_of.is_root [OF is_root.hyps] root_of_deterministic
      unfolding memo_ok_def by blast
    then show ?thesis using Some by (subst findRootPbi.simps) simp
  qed
next
  case (orphan i item)
  show ?case
  proof (cases "map_get memo i")
    case None
    then show ?thesis using orphan by (subst findRootPbi.simps) auto
  next
    case (Some m)
    then have "m = None"
      using orphan.prems root_of.orphan [OF orphan.hyps] root_of_deterministic
      unfolding memo_ok_def by blast
    then show ?thesis using Some by (subst findRootPbi.simps) simp
  qed
next
  case (parent i item p r)
  show ?case
  proof (cases "map_get memo i")
    case None
    obtain m' where "findRootPbi byId memo p = Some (r, m')"
      using parent.IH [OF parent.prems] by blast
    then show ?thesis using None parent.hyps by (subst findRootPbi.simps) simp
  next
    case (Some m)
    have "root_of byId i r" using parent.hyps by (rule root_of.parent)
    then have "m = r"
      using Some parent.prems root_of_deterministic unfolding memo_ok_def by blast
    then show ?thesis using Some by (subst findRootPbi.simps) simp
  qed
qed

lemma findRootPbi_fresh_iff:
  "(\<exists>memo'. findRootPbi byId [] i = Some (r, memo')) \<longleftrightarrow> root_of byId i r"
  using findRootPbi_sound [of byId "[]" i r] findRootPbi_complete [of byId i r "[]"] memo_ok_empty
  by blast

lemma dead_end_walk_root_of: "dead_end_walk byId i ps \<Longrightarrow> root_of byId i None"
proof (induction ps arbitrary: i)
  case Nil
  then show ?case
    by (cases "map_get byId i") (auto intro: root_of.absent root_of.orphan)
next
  case (Cons p ps)
  then obtain item where "map_get byId i = Some item"
    "System_WorkItemType item \<noteq> ''Product Backlog Item''" "System_Parent item = Some p" "p \<noteq> 0"
    "dead_end_walk byId p ps"
    by (cases "map_get byId i") auto
  then show ?case using Cons.IH by (auto intro: root_of.parent)
qed

lemma maps_ok_SomeD:
  "maps_ok byId T I \<Longrightarrow> map_get I k = Some v \<Longrightarrow>
   \<exists>r. root_of byId k r \<and> v = root_id_or_self k r \<and> map_get T k = map_option System_Title r"
  unfolding maps_ok_def by (erule allE [of _ k]) simp

lemma maps_ok_NoneD: "maps_ok byId T I \<Longrightarrow> map_get I k = None \<Longrightarrow> map_get T k = None"
  unfolding maps_ok_def by (erule allE [of _ k]) simp

lemma maps_ok_step:
  assumes "maps_ok byId T I" and "root_of byId k r"
  shows "maps_ok byId (case r of Some pbi \<Rightarrow> map_set T k (System_Title pbi) | None \<Rightarrow> T)
           (map_set I k (root_id_or_self k r))"
  unfolding maps_ok_def
proof
  fix j
  show "case map_get (map_set I k (root_id_or_self k r)) j of
          None \<Rightarrow> map_get (case r of Some pbi \<Rightarrow> map_set T k (System_Title pbi) | None \<Rightarrow> T) j = None
        | Some v \<Rightarrow> (\<exists>r'. root_of byId j r' \<and> v = root_id_or_self j r'
              \<and> map_get (case r of Some pbi \<Rightarrow> map_set T k (System_Title pbi) | None \<Rightarrow> T) j
                   = map_option System_Title r')"
  proof (cases "j = k")
    case False
    have "map_get (case r of Some pbi \<Rightarrow> map_set T k (System_Title pbi) | None \<Rightarrow> T) j = map_get T j"
      using False by (cases r) (simp_all add: map_get_map_set)
    moreover have "case map_get I j of None \<Rightarrow> map_get T j = None
        | Some v \<Rightarrow> (\<exists>r'. root_of byId j r' \<and> v = root_id_or_self j r'
              \<and> map_get T j = map_option System_Title r')"
      using assms(1) unfolding maps_ok_def by blast
    ultimately show ?thesis
      using False by (simp add: map_get_map_set split: option.splits)
  next
    case True
    have t: "map_get (case r of Some pbi \<Rightarrow> map_set T k (System_Title pbi) | None \<Rightarrow> T) k
               = map_option System_Title r"
    proof (cases r)
      case (Some pbi)
      then show ?thesis by (simp add: map_get_map_set)
    next
      case None
      have "map_get T k = None"
      proof (cases "map_get I k")
        case None
        then show ?thesis using assms(1) by (simp add: maps_ok_NoneD)
      next
        case (Some v)
        then obtain r' where "root_of byId k r'" and tt: "map_get T k = map_option System_Title r'"
          using maps_ok_SomeD [OF assms(1)] by blast
        then have "r' = None" using assms(2) None root_of_deterministic by blast
        then show ?thesis using tt by simp
      qed
      then show ?thesis using None by simp
    qed
    show ?thesis using True t assms(2) by (auto simp: map_get_map_set)
  qed
qed

lemma resolve_items_inv:
  "resolve_items byId items (memo, T, I) = Some (memo', T', I') \<Longrightarrow>
   memo_ok byId memo \<Longrightarrow> maps_ok byId T I \<Longrightarrow>
   memo_ok byId memo' \<and> maps_ok byId T' I'
    \<and> (\<forall>k. map_get I k \<noteq> None \<longrightarrow> map_get I' k \<noteq> None)
    \<and> (\<forall>item \<in> set items. map_get I' (wi_id item) \<noteq> None)"
proof (induction items arbitrary: memo T I)
  case Nil
  then show ?case by simp
next
  case (Cons item items)
  from Cons.prems(1) obtain r m1 where
    call: "findRootPbi byId memo (wi_id item) = Some (r, m1)"
    and rest: "resolve_items byId items
                 (m1, (case r of Some pbi \<Rightarrow> map_set T (wi_id item) (System_Title pbi) | None \<Rightarrow> T),
                  map_set I (wi_id item) (root_id_or_self (wi_id item) r)) = Some (memo', T', I')"
    by (auto simp: root_id_or_self_def split: Option.bind_splits option.splits)
  have ro: "root_of byId (wi_id item) r" and m1: "memo_ok byId m1"
    using findRootPbi_sound [OF call Cons.prems(2)] by simp_all
  have mo: "maps_ok byId (case r of Some pbi \<Rightarrow> map_set T (wi_id item) (System_Title pbi) | None \<Rightarrow> T)
             (map_set I (wi_id item) (root_id_or_self (wi_id item) r))"
    using Cons.prems(3) ro by (rule maps_ok_step)
  from Cons.IH [OF rest m1 mo]
  have a: "memo_ok byId memo'" and b: "maps_ok byId T' I'"
    and c: "\<And>k. map_get (map_set I (wi_id item) (root_id_or_self (wi_id item) r)) k \<noteq> None
               \<Longrightarrow> map_get I' k \<noteq> None"
    and d: "\<And>it. it \<in> set items \<Longrightarrow> map_get I' (wi_id it) \<noteq> None"
    by blast+
  have c1: "map_get I k \<noteq> None \<Longrightarrow> map_get I' k \<noteq> None" for k
    using c [of k] by (simp add: map_get_map_set split: if_splits)
  have c2: "map_get I' (wi_id item) \<noteq> None"
    using c [of "wi_id item"] by (simp add: map_get_map_set)
  show ?case using a b c1 c2 d by auto
qed

lemma resolve_items_total:
  "\<forall>item \<in> set items. \<exists>r. root_of byId (wi_id item) r \<Longrightarrow> memo_ok byId memo \<Longrightarrow>
   \<exists>st. resolve_items byId items (memo, T, I) = Some st"
proof (induction items arbitrary: memo T I)
  case Nil
  show ?case by simp
next
  case (Cons item items)
  obtain r where ro: "root_of byId (wi_id item) r" using Cons.prems(1) by auto
  obtain m1 where call: "findRootPbi byId memo (wi_id item) = Some (r, m1)"
    using findRootPbi_complete [OF ro Cons.prems(2)] by blast
  have m1: "memo_ok byId m1" using findRootPbi_sound [OF call Cons.prems(2)] by simp
  have rest: "\<forall>item \<in> set items. \<exists>r. root_of byId (wi_id item) r" using Cons.prems(1) by simp
  show ?case
    using call Cons.IH [OF rest m1] by (cases r) simp_all
qed

lemma maps_ok_empty: "maps_ok byId [] []"
  by (simp add: maps_ok_def map_get_def)

lemma hierarchyMap_entry:
  assumes "hierarchyMap (Some allItems) (Some rootItems) = Some (titleMap, idMap)"
    and "item \<in> set allItems"
  shows "\<exists>r. root_of (allItemsById allItems rootItems) (wi_id item) r
           \<and> map_get idMap (wi_id item) = Some (root_id_or_self (wi_id item) r)
           \<and> map_get titleMap (wi_id item) = map_option System_Title r"
proof -
  let ?byId = "allItemsById allItems rootItems"
  from assms(1) obtain memo' where
    run: "resolve_items ?byId allItems ([], [], []) = Some (memo', titleMap, idMap)"
    by (auto simp: hierarchyMap_def split: Option.bind_splits)
  from resolve_items_inv [OF run memo_ok_empty maps_ok_empty] assms(2)
  have ok: "maps_ok ?byId titleMap idMap" and def: "map_get idMap (wi_id item) \<noteq> None"
    by blast+
  then obtain v where v: "map_get idMap (wi_id item) = Some v" by auto
  with maps_ok_SomeD [OF ok v] show ?thesis by auto
qed

lemma finite_parent_edges: "finite (parent_edges byId)"
proof -
  have "parent_edges byId \<subseteq> (\<lambda>(k, item). (k, the (System_Parent item))) ` set byId"
  proof
    fix e assume "e \<in> parent_edges byId"
    then obtain i p item where e: "e = (i, p)" and g: "map_get byId i = Some item"
      and p: "System_Parent item = Some p"
      by (auto simp: parent_edges_def)
    from g have "(i, item) \<in> set byId" by (simp add: map_get_def map_of_SomeD)
    then show "e \<in> (\<lambda>(k, item). (k, the (System_Parent item))) ` set byId"
      using e p by (auto intro!: image_eqI [where x = "(i, item)"])
  qed
  then show ?thesis by (rule finite_subset) simp
qed

lemma root_of_total:
  assumes "acyclic (parent_edges byId)"
  shows "\<exists>r. root_of byId i r"
proof -
  have "wf ((parent_edges byId)\<inverse>)"
    using assms finite_parent_edges by (simp add: finite_acyclic_wf)
  then show ?thesis
  proof (induction i rule: wf_induct_rule)
    case (less i)
    show ?case
    proof (cases "map_get byId i")
      case None
      then show ?thesis by (auto intro: root_of.absent)
    next
      case (Some item)
      show ?thesis
      proof (cases "System_WorkItemType item = ''Product Backlog Item''")
        case True
        then show ?thesis using Some by (auto intro: root_of.is_root)
      next
        case False
        show ?thesis
        proof (cases "System_Parent item = None \<or> System_Parent item = Some 0")
          case True
          then show ?thesis using Some False by (blast intro: root_of.orphan)
        next
          case np: False
          then obtain p where p: "System_Parent item = Some p" "p \<noteq> 0" by auto
          then have "(p, i) \<in> (parent_edges byId)\<inverse>" using Some by (auto simp: parent_edges_def)
          then obtain r where "root_of byId p r" using less by blast
          then show ?thesis using Some False p by (blast intro: root_of.parent)
        qed
      qed
    qed
  qed
qed

lemma acyclic_rank:
  assumes "\<And>i p. (i, p) \<in> r \<Longrightarrow> f p < (f i :: nat)"
  shows "acyclic r"
proof -
  have "r\<inverse> \<subseteq> measure f" using assms by auto
  then have "wf (r\<inverse>)" by (rule wf_subset [OF wf_measure])
  then have "acyclic (r\<inverse>)" by (rule wf_acyclic)
  then show ?thesis by simp
qed

text \<open>
  On a cycle the walk does not return: the memo entry of an id is written only after the
  call on its parent has returned, so the two tasks call each other for ever.
\<close>

lemma findRootPbi_cycle_aux:
  assumes "findRootPbi byId memo i = Some y"
  shows "byId = [(1, cycle_a), (2, cycle_b)] \<and> memo = [] \<and> (i = 1 \<or> i = 2) \<longrightarrow> False"
  using assms
proof (induct rule: findRootPbi.raw_induct [rotated 1, consumes 1])
  case (1 f byId memo i y)
  show ?case
  proof
    assume h: "byId = [(1, cycle_a), (2, cycle_b)] \<and> memo = [] \<and> (i = 1 \<or> i = 2)"
    then consider "i = 1" | "i = 2" by auto
    then show False
    proof cases
      case 1
      with h "1.hyps"(2) obtain z where "f byId memo 2 = Some z"
        by (auto simp: map_get_def cycle_a_def split: Option.bind_splits)
      from "1.hyps"(1) [OF this] h show False by simp
    next
      case 2
      with h "1.hyps"(2) obtain z where "f byId memo 1 = Some z"
        by (auto simp: map_get_def cycle_b_def split: Option.bind_splits)
      from "1.hyps"(1) [OF this] h show False by simp
    qed
  qed
qed

lemma findRootPbi_cycle_diverges: "findRootPbi [(1, cycle_a), (2, cycle_b)] [] 1 = None"
  using findRootPbi_cycle_aux [of "[(1, cycle_a), (2, cycle_b)]" "[]" 1] by (cases "findRootPbi [(1, cycle_a), (2, cycle_b)] [] 1") auto

text \<open>
  C4. An item of the collection whose type is the root type (\<open>Product Backlog Item\<close>)
  resolves to itself, whatever its parent id: \<open>findRootPbi\<close> returns it, from an empty
  memo and from any memo of earlier results, and the batch enters its own id and title.
\<close>

theorem findRootPbi_self_root:
  "(map_get byId itemId = Some item \<and> System_WorkItemType item = ''Product Backlog Item'' \<longrightarrow>
      (\<exists>memo'. findRootPbi byId [] itemId = Some (Some item, memo'))
      \<and> (memo_ok byId memo \<longrightarrow> (\<exists>memo'. findRootPbi byId memo itemId = Some (Some item, memo'))))
   \<and> (hierarchyMap (Some allItems) (Some rootItems) = Some (titleMap, idMap) \<and> it \<in> set allItems
        \<and> map_get (allItemsById allItems rootItems) (wi_id it) = Some item
        \<and> System_WorkItemType item = ''Product Backlog Item'' \<longrightarrow>
      map_get idMap (wi_id it) = Some (wi_id item)
      \<and> map_get titleMap (wi_id it) = Some (System_Title item))"
proof (intro conjI impI)
  assume h: "map_get byId itemId = Some item \<and> System_WorkItemType item = ''Product Backlog Item''"
  then have ro: "root_of byId itemId (Some item)" by (auto intro: root_of.is_root)
  show "\<exists>memo'. findRootPbi byId [] itemId = Some (Some item, memo')"
    using findRootPbi_complete [OF ro memo_ok_empty] .
  show "\<exists>memo'. findRootPbi byId memo itemId = Some (Some item, memo')" if "memo_ok byId memo"
    using findRootPbi_complete [OF ro that] .
next
  assume h: "hierarchyMap (Some allItems) (Some rootItems) = Some (titleMap, idMap) \<and> it \<in> set allItems
        \<and> map_get (allItemsById allItems rootItems) (wi_id it) = Some item
        \<and> System_WorkItemType item = ''Product Backlog Item''"
  then have ro: "root_of (allItemsById allItems rootItems) (wi_id it) (Some item)"
    by (auto intro: root_of.is_root)
  from h obtain r where r: "root_of (allItemsById allItems rootItems) (wi_id it) r"
    and i: "map_get idMap (wi_id it) = Some (root_id_or_self (wi_id it) r)"
    and t: "map_get titleMap (wi_id it) = map_option System_Title r"
    using hierarchyMap_entry [of allItems rootItems titleMap idMap it] by blast
  have "r = Some item" using r ro by (rule root_of_deterministic)
  then show "map_get idMap (wi_id it) = Some (wi_id item)"
    and "map_get titleMap (wi_id it) = Some (System_Title item)"
    using i t by (simp_all add: root_id_or_self_def)
qed

lemma example_byId:
  "allItemsById [pbi_1, task_2, task_3, task_4, task_5] [pbi_1]
     = [(1, pbi_1), (2, task_2), (3, task_3), (4, task_4), (5, task_5)]"
  by (simp add: allItemsById_def pbi_1_def task_2_def task_3_def task_4_def task_5_def)

lemma example_hierarchyMap:
  "hierarchyMap (Some [pbi_1, task_2, task_3, task_4, task_5]) (Some [pbi_1])
     = Some ([(1, ''Root''), (2, ''Root''), (3, ''Root'')], [(1, 1), (2, 1), (3, 1), (4, 4), (5, 5)])"
  by code_simp

lemma example_memo_ok:
  "memo_ok (allItemsById [pbi_1, task_2, task_3, task_4, task_5] [pbi_1])
     [(1, Some pbi_1), (2, Some pbi_1)]"
proof -
  let ?byId = "allItemsById [pbi_1, task_2, task_3, task_4, task_5] [pbi_1]"
  have "findRootPbi ?byId [] 2 = Some (Some pbi_1, [(1, Some pbi_1), (2, Some pbi_1)])"
    by code_simp
  then show ?thesis using findRootPbi_sound [OF _ memo_ok_empty] by blast
qed

theorem findRootPbi_self_root_witness:
  "map_get (allItemsById [pbi_1, task_2, task_3, task_4, task_5] [pbi_1]) 1 = Some pbi_1
   \<and> System_WorkItemType pbi_1 = ''Product Backlog Item'' \<and> System_Parent pbi_1 = Some 9
   \<and> (\<exists>memo'. findRootPbi (allItemsById [pbi_1, task_2, task_3, task_4, task_5] [pbi_1]) [] 1
          = Some (Some pbi_1, memo'))
   \<and> memo_ok (allItemsById [pbi_1, task_2, task_3, task_4, task_5] [pbi_1])
         [(1, Some pbi_1), (2, Some pbi_1)]
   \<and> (\<exists>memo'. findRootPbi (allItemsById [pbi_1, task_2, task_3, task_4, task_5] [pbi_1])
                  [(1, Some pbi_1), (2, Some pbi_1)] 1 = Some (Some pbi_1, memo'))
   \<and> map_get [(1, 1), (2, 1), (3, 1), (4, 4), (5, 5 :: int)] (1 :: int) = Some (wi_id pbi_1)
   \<and> map_get [(1, ''Root''), (2, ''Root''), (3, ''Root'')] (1 :: int) = Some (System_Title pbi_1)"
proof -
  let ?all = "[pbi_1, task_2, task_3, task_4, task_5]"
  have g: "map_get (allItemsById ?all [pbi_1]) 1 = Some pbi_1"
    unfolding example_byId by (simp add: map_get_def)
  have ty: "System_WorkItemType pbi_1 = ''Product Backlog Item''" and pa: "System_Parent pbi_1 = Some 9"
    and id: "wi_id pbi_1 = 1"
    by (simp_all add: pbi_1_def)
  have m: "pbi_1 \<in> set ?all" by simp
  note inst = findRootPbi_self_root [of "allItemsById ?all [pbi_1]" 1 pbi_1 "[]" ?all "[pbi_1]"
      "[(1, ''Root''), (2, ''Root''), (3, ''Root'')]" "[(1, 1), (2, 1), (3, 1), (4, 4), (5, 5)]" pbi_1]
  have a: "\<exists>memo'. findRootPbi (allItemsById ?all [pbi_1]) [] 1 = Some (Some pbi_1, memo')"
    using inst g ty by blast
  have a': "\<exists>memo'. findRootPbi (allItemsById ?all [pbi_1]) [(1, Some pbi_1), (2, Some pbi_1)] 1
              = Some (Some pbi_1, memo')"
    using findRootPbi_self_root [of "allItemsById ?all [pbi_1]" 1 pbi_1
        "[(1, Some pbi_1), (2, Some pbi_1)]"] g ty example_memo_ok by blast
  have b: "map_get [(1, 1), (2, 1), (3, 1), (4, 4), (5, 5 :: int)] (wi_id pbi_1) = Some (wi_id pbi_1)
      \<and> map_get [(1, ''Root''), (2, ''Root''), (3, ''Root'')] (wi_id pbi_1) = Some (System_Title pbi_1)"
    using inst example_hierarchyMap m g ty unfolding id by blast
  show ?thesis using g ty pa a a' example_memo_ok b unfolding id by blast
qed

text \<open>
  C5. An item whose ancestor walk ends without meeting the root type, at an item that is
  not of the root type and has no parent id or at a parent id that is not in the
  collection, resolves to \<open>null\<close>: \<open>findRootPbi\<close> returns (it raises nothing and does not
  run on) with no root, and the batch enters the item's own id and no title.
\<close>

theorem findRootPbi_dead_end:
  "(dead_end_walk byId itemId ps \<longrightarrow>
      (\<exists>memo'. findRootPbi byId [] itemId = Some (None, memo'))
      \<and> (memo_ok byId memo \<longrightarrow> (\<exists>memo'. findRootPbi byId memo itemId = Some (None, memo'))))
   \<and> (hierarchyMap (Some allItems) (Some rootItems) = Some (titleMap, idMap) \<and> it \<in> set allItems
        \<and> dead_end_walk (allItemsById allItems rootItems) (wi_id it) ps \<longrightarrow>
      map_get idMap (wi_id it) = Some (wi_id it) \<and> map_get titleMap (wi_id it) = None)"
proof (intro conjI impI)
  assume "dead_end_walk byId itemId ps"
  then have ro: "root_of byId itemId None" by (rule dead_end_walk_root_of)
  show "\<exists>memo'. findRootPbi byId [] itemId = Some (None, memo')"
    using findRootPbi_complete [OF ro memo_ok_empty] .
  show "\<exists>memo'. findRootPbi byId memo itemId = Some (None, memo')" if "memo_ok byId memo"
    using findRootPbi_complete [OF ro that] .
next
  assume h: "hierarchyMap (Some allItems) (Some rootItems) = Some (titleMap, idMap) \<and> it \<in> set allItems
        \<and> dead_end_walk (allItemsById allItems rootItems) (wi_id it) ps"
  then have ro: "root_of (allItemsById allItems rootItems) (wi_id it) None"
    by (auto intro: dead_end_walk_root_of)
  from h obtain r where r: "root_of (allItemsById allItems rootItems) (wi_id it) r"
    and i: "map_get idMap (wi_id it) = Some (root_id_or_self (wi_id it) r)"
    and t: "map_get titleMap (wi_id it) = map_option System_Title r"
    using hierarchyMap_entry [of allItems rootItems titleMap idMap it] by blast
  have "r = None" using r ro by (rule root_of_deterministic)
  then show "map_get idMap (wi_id it) = Some (wi_id it)" and "map_get titleMap (wi_id it) = None"
    using i t by (simp_all add: root_id_or_self_def)
qed

theorem findRootPbi_dead_end_witness:
  "dead_end_walk (allItemsById [pbi_1, task_2, task_3, task_4, task_5] [pbi_1]) 4 []
   \<and> dead_end_walk (allItemsById [pbi_1, task_2, task_3, task_4, task_5] [pbi_1]) 5 [77]
   \<and> (\<exists>memo'. findRootPbi (allItemsById [pbi_1, task_2, task_3, task_4, task_5] [pbi_1]) [] 4
          = Some (None, memo'))
   \<and> (\<exists>memo'. findRootPbi (allItemsById [pbi_1, task_2, task_3, task_4, task_5] [pbi_1]) [] 5
          = Some (None, memo'))
   \<and> memo_ok (allItemsById [pbi_1, task_2, task_3, task_4, task_5] [pbi_1])
         [(1, Some pbi_1), (2, Some pbi_1)]
   \<and> (\<exists>memo'. findRootPbi (allItemsById [pbi_1, task_2, task_3, task_4, task_5] [pbi_1])
                  [(1, Some pbi_1), (2, Some pbi_1)] 5 = Some (None, memo'))
   \<and> map_get [(1, 1), (2, 1), (3, 1), (4, 4), (5, 5 :: int)] (5 :: int) = Some 5
   \<and> map_get [(1, ''Root''), (2, ''Root''), (3, ''Root'')] (5 :: int) = None"
proof -
  let ?all = "[pbi_1, task_2, task_3, task_4, task_5]"
  have d4: "dead_end_walk (allItemsById ?all [pbi_1]) 4 []"
    unfolding example_byId by (simp add: map_get_def task_4_def)
  have d5: "dead_end_walk (allItemsById ?all [pbi_1]) 5 [77]"
    unfolding example_byId by (simp add: map_get_def task_5_def)
  have id: "wi_id task_5 = 5" by (simp add: task_5_def)
  have m: "task_5 \<in> set ?all" by simp
  have a: "\<exists>memo'. findRootPbi (allItemsById ?all [pbi_1]) [] 4 = Some (None, memo')"
    using findRootPbi_dead_end [of "allItemsById ?all [pbi_1]" 4 "[]" "[]"] d4 by blast
  have b: "\<exists>memo'. findRootPbi (allItemsById ?all [pbi_1]) [] 5 = Some (None, memo')"
    using findRootPbi_dead_end [of "allItemsById ?all [pbi_1]" 5 "[77]" "[]"] d5 by blast
  have b': "\<exists>memo'. findRootPbi (allItemsById ?all [pbi_1]) [(1, Some pbi_1), (2, Some pbi_1)] 5
              = Some (None, memo')"
    using findRootPbi_dead_end [of "allItemsById ?all [pbi_1]" 5 "[77]"
        "[(1, Some pbi_1), (2, Some pbi_1)]"] d5 example_memo_ok by blast
  have c: "map_get [(1, 1), (2, 1), (3, 1), (4, 4), (5, 5 :: int)] (wi_id task_5) = Some (wi_id task_5)
      \<and> map_get [(1, ''Root''), (2, ''Root''), (3, ''Root'')] (wi_id task_5) = None"
    using findRootPbi_dead_end [of _ _ "[77]" _ ?all "[pbi_1]"
        "[(1, ''Root''), (2, ''Root''), (3, ''Root'')]" "[(1, 1), (2, 1), (3, 1), (4, 4), (5, 5)]" task_5]
      example_hierarchyMap m d5 unfolding id by blast
  show ?thesis using d4 d5 a b b' example_memo_ok c unfolding id by blast
qed

text \<open>
  C10. When the parent-id graph of the collection has no cycle, the walk returns for every
  item id, from an empty memo and from any memo of earlier results, and so does the whole
  batch. (On a cycle it does not: see \<open>findRootPbi_cycle_diverges\<close>.)
\<close>

theorem findRootPbi_terminates:
  assumes "acyclic (parent_edges byId)"
  shows "(\<exists>r memo'. findRootPbi byId [] itemId = Some (r, memo'))
    \<and> (memo_ok byId memo \<longrightarrow> (\<exists>r memo'. findRootPbi byId memo itemId = Some (r, memo')))
    \<and> (byId = allItemsById allItems rootItems \<longrightarrow>
          (\<exists>titleMap idMap. hierarchyMap (Some allItems) (Some rootItems) = Some (titleMap, idMap)))"
proof (intro conjI impI)
  obtain r where ro: "root_of byId itemId r" using root_of_total [OF assms] by blast
  show "\<exists>r memo'. findRootPbi byId [] itemId = Some (r, memo')"
    using findRootPbi_complete [OF ro memo_ok_empty] by blast
  show "\<exists>r memo'. findRootPbi byId memo itemId = Some (r, memo')" if "memo_ok byId memo"
    using findRootPbi_complete [OF ro that] by blast
next
  assume b: "byId = allItemsById allItems rootItems"
  have "\<forall>item \<in> set allItems. \<exists>r. root_of byId (wi_id item) r"
    using root_of_total [OF assms] by blast
  then obtain st where "resolve_items byId allItems ([], [], []) = Some st"
    using resolve_items_total [OF _ memo_ok_empty] by blast
  then show "\<exists>titleMap idMap. hierarchyMap (Some allItems) (Some rootItems) = Some (titleMap, idMap)"
    unfolding b by (cases st) (auto simp: hierarchyMap_def)
qed

theorem findRootPbi_terminates_witness:
  "acyclic (parent_edges (allItemsById [pbi_1, task_2, task_3, task_4, task_5] [pbi_1]))
   \<and> (\<exists>r memo'. findRootPbi (allItemsById [pbi_1, task_2, task_3, task_4, task_5] [pbi_1]) [] 2
          = Some (r, memo'))
   \<and> memo_ok (allItemsById [pbi_1, task_2, task_3, task_4, task_5] [pbi_1])
         [(1, Some pbi_1), (2, Some pbi_1)]
   \<and> (\<exists>r memo'. findRootPbi (allItemsById [pbi_1, task_2, task_3, task_4, task_5] [pbi_1])
                  [(1, Some pbi_1), (2, Some pbi_1)] 3 = Some (r, memo'))
   \<and> (\<exists>titleMap idMap. hierarchyMap (Some [pbi_1, task_2, task_3, task_4, task_5]) (Some [pbi_1])
          = Some (titleMap, idMap))"
proof -
  let ?all = "[pbi_1, task_2, task_3, task_4, task_5]"
  have ac: "acyclic (parent_edges (allItemsById ?all [pbi_1]))"
  proof (rule acyclic_rank [where f = "\<lambda>k. if k = 9 \<or> k = 77 then 0 else if k = 1 then 1 else 2"])
    fix i p
    assume "(i, p) \<in> parent_edges (allItemsById ?all [pbi_1])"
    then have "(i, p) \<in> {(1, 9), (2, 1), (3, 1), (5, 77)}"
      unfolding example_byId
      by (auto simp: parent_edges_def map_get_def
          pbi_1_def task_2_def task_3_def task_4_def task_5_def split: if_splits)
    then show "(if p = 9 \<or> p = 77 then 0 else if p = 1 then 1 else 2)
         < (if i = 9 \<or> i = 77 then 0 else if i = 1 then 1 else (2::nat))"
      by auto
  qed
  show ?thesis
    using findRootPbi_terminates [OF ac, of 2 "[]" ?all "[pbi_1]"]
      findRootPbi_terminates [OF ac, of 3 "[(1, Some pbi_1), (2, Some pbi_1)]" ?all "[pbi_1]"]
      ac example_memo_ok by blast
qed

end
